theory Spec2Isabelle
  imports Main "HOL-Library.AList" "HOL-Library.Char_ord" "HOL-Library.List_Lexorder"
begin


section \<open>Schema merging of the federation gateway (federation/schema.go)\<close>

subsection \<open>Introspection model\<close>

text \<open>
  The introspection types are declared outside schema.go; their shape is the one the code
  reads: a type reference has a kind, a name and a nilable \<open>OfType\<close> pointer; a field has a
  name, a nilable type pointer and arguments; a type has a name, a kind, fields, input
  fields, possible types and enum values. A nil pointer is \<open>None\<close>.
\<close>

datatype introspectionTypeRef =
  TypeRef (ref_Kind: string) (ref_Name: string) (ref_OfType: "introspectionTypeRef option")

record introspectionInputField =
  inp_Name :: string
  inp_Type :: "introspectionTypeRef option"

record introspectionField =
  fld_Name :: string
  fld_Type :: "introspectionTypeRef option"
  fld_Args :: "introspectionInputField list"

record introspectionType =
  typ_Name :: string
  typ_Kind :: string
  typ_Fields :: "introspectionField list"
  typ_InputFields :: "introspectionInputField list"
  typ_PossibleTypes :: "introspectionTypeRef list"
  typ_EnumValues :: "string list"

record introspectionSchema =
  Types :: "introspectionType list"

record IntrospectionQueryResult =
  Schema :: introspectionSchema

text \<open>
  \<open>serviceSchemas\<close> is a Go map from service name to a map from version to schema. A Go map
  is an association list read with \<open>map_of\<close>; where the code iterates over a map the model
  iterates over the list, one of the orders Go may choose.
\<close>

type_synonym serviceSchemas = "(string \<times> (string \<times> IntrospectionQueryResult) list) list"

subsection \<open>Errors\<close>

text \<open>
  Every error return of schema.go is a constructor; wrapping (\<open>fmt.Errorf("...: %v", err)\<close>,
  \<open>Wrapf\<close>) keeps the wrapped error. The two run-time panics the code can raise, a nil
  pointer dereference and a failed unchecked type assertion, are values too.
\<close>

datatype error =
    NilDereference
  | FailedTypeAssertion
  | MergeFailure string
  | MalformedTyperef
  | UnknownTypeKind string
  | TypeNotFound string
  | DuplicateType string
  | InputFieldBadTyp string string
  | FieldBadTyp string error
  | TypFieldBadTyp string string error
  | FieldInput string error
  | TypError string error
  | PossibleTypNotObject string introspectionTypeRef
  | InvalidFederationKey string
  | NotFederated string
  | ExpectedFederated string error
  | ReturnTypeNotObject string
  | ShadowType string string
  | CannotShadow error
  | NoObjectName string
  | ExpectedObjectName string
  | NotInputObject string string
  | InputFieldNotOnObject string string

fun isPanic :: "error \<Rightarrow> bool" where
  "isPanic NilDereference = True"
| "isPanic FailedTypeAssertion = True"
| "isPanic _ = False"

text \<open>A panic unwinds through the callers: the wrapping code after \<open>if err != nil\<close> never runs.\<close>

definition wrap :: "(error \<Rightarrow> error) \<Rightarrow> error \<Rightarrow> error" where
  "wrap w e = (if isPanic e then e else w e)"

subsection \<open>The merged type table\<close>

text \<open>
  The graphql package's types. Named types live in the table \<open>map[string]graphql.Type\<close> as
  pointers to shells; a pointer to a shell is the shell's key in the table (\<open>GRef\<close>), which
  is how the cyclic object graph is held. A \<open>*graphql.Field\<close> is identified by the object
  and field name under which the table holds it; \<open>None\<close> is the nil pointer.
\<close>

datatype gtype = GRef string | GList gtype | GNonNull gtype

record Field =
  Args :: "(string \<times> gtype) list"
  Type :: gtype
  FederatedKey :: "(string \<rightharpoonup> bool) option"

datatype gshell =
    GObject string "(string \<times> Field) list"
  | GInputObject string "(string \<times> gtype) list"
  | GScalar string
  | GUnion string "(string \<times> string) list"
  | GEnum string "string list" "(string \<times> string) list"

type_synonym types = "(string \<times> gshell) list"

type_synonym fieldPtr = "(string \<times> string) option"

record FieldInfo =
  Services :: "string \<rightharpoonup> bool"

record graphqlSchema =
  Query :: "gshell option"
  Mutation :: "gshell option"

text \<open>
  \<open>TypeTable\<close> is the store in which the pointers held by \<open>Schema\<close> and \<open>Fields\<close> are
  resolved: the objects reachable from the returned schema.
\<close>

record SchemaWithFederationInfo =
  SchemaOf :: graphqlSchema
  Fields :: "fieldPtr \<rightharpoonup> FieldInfo"
  TypeTable :: types

subsection \<open>Type references\<close>

fun getRootType :: "introspectionTypeRef option \<Rightarrow> error + introspectionTypeRef" where
  "getRootType None = Inl NilDereference"
| "getRootType (Some (TypeRef k n None)) = Inr (TypeRef k n None)"
| "getRootType (Some (TypeRef k n (Some t))) = getRootType (Some t)"

definition namedKind :: "string \<Rightarrow> bool" where
  "namedKind k \<longleftrightarrow> k = ''SCALAR'' \<or> k = ''OBJECT'' \<or> k = ''UNION'' \<or> k = ''INPUT_OBJECT'' \<or> k = ''ENUM''"

fun lookupType :: "introspectionTypeRef option \<Rightarrow> types \<Rightarrow> error + introspectionTypeRef" where
  "lookupType None all = Inl MalformedTyperef"
| "lookupType (Some (TypeRef k n ot)) all =
     (if namedKind k then Inr (TypeRef k n ot)
      else if k = ''LIST'' then lookupType ot all
      else if k = ''NON_NULL'' then lookupType ot all
      else Inl (UnknownTypeKind k))"

fun lookupTypeRef :: "introspectionTypeRef option \<Rightarrow> types \<Rightarrow> error + gtype" where
  "lookupTypeRef None all = Inl MalformedTyperef"
| "lookupTypeRef (Some (TypeRef k n ot)) all =
     (if namedKind k then
        (case map_of all n of
           None \<Rightarrow> Inl (TypeNotFound n)
         | Some typ \<Rightarrow> Inr (GRef n))
      else if k = ''LIST'' then
        (case lookupTypeRef ot all of Inl err \<Rightarrow> Inl err | Inr inner \<Rightarrow> Inr (GList inner))
      else if k = ''NON_NULL'' then
        (case lookupTypeRef ot all of Inl err \<Rightarrow> Inl err | Inr inner \<Rightarrow> Inr (GNonNull inner))
      else Inl (UnknownTypeKind k))"

subsection \<open>parseSchema\<close>

text \<open>
  In \<open>parseInputFields\<close> the error branch of \<open>lookupType\<close> formats \<open>rawType.Name\<close> with
  \<open>rawType\<close> nil: the branch panics.
\<close>

fun parseInputFieldsLoop ::
  "introspectionInputField list \<Rightarrow> types \<Rightarrow> (string \<times> gtype) list \<Rightarrow> error + (string \<times> gtype) list" where
  "parseInputFieldsLoop [] all fs = Inr fs"
| "parseInputFieldsLoop (field # source) all fs =
     (case lookupType (inp_Type field) all of
        Inl err \<Rightarrow> Inl NilDereference
      | Inr rawType \<Rightarrow>
          if ref_Kind rawType = ''INPUT_OBJECT'' \<or> ref_Kind rawType = ''SCALAR'' \<or> ref_Kind rawType = ''ENUM''
          then
            (case lookupTypeRef (inp_Type field) all of
               Inl err \<Rightarrow> Inl (FieldBadTyp (inp_Name field) err)
             | Inr inputType \<Rightarrow>
                 parseInputFieldsLoop source all (AList.update (inp_Name field) inputType fs))
          else Inl (InputFieldBadTyp (inp_Name field) (ref_Kind rawType)))"

definition parseInputFields ::
  "introspectionInputField list \<Rightarrow> types \<Rightarrow> error + (string \<times> gtype) list" where
  "parseInputFields source all = parseInputFieldsLoop source all []"

text \<open>Pass 1 of \<open>parseSchema\<close>: one empty shell per named type.\<close>

fun parseShells :: "introspectionType list \<Rightarrow> types \<Rightarrow> error + types" where
  "parseShells [] all = Inr all"
| "parseShells (typ # rest) all =
     (if map_of all (typ_Name typ) \<noteq> None then Inl (DuplicateType (typ_Name typ))
      else if typ_Kind typ = ''OBJECT'' then
        parseShells rest (AList.update (typ_Name typ) (GObject (typ_Name typ) []) all)
      else if typ_Kind typ = ''INPUT_OBJECT'' then
        parseShells rest (AList.update (typ_Name typ) (GInputObject (typ_Name typ) []) all)
      else if typ_Kind typ = ''SCALAR'' then
        parseShells rest (AList.update (typ_Name typ) (GScalar (typ_Name typ)) all)
      else if typ_Kind typ = ''UNION'' then
        parseShells rest (AList.update (typ_Name typ) (GUnion (typ_Name typ) []) all)
      else if typ_Kind typ = ''ENUM'' then
        parseShells rest (AList.update (typ_Name typ) (GEnum (typ_Name typ) [] []) all)
      else Inl (UnknownTypeKind (typ_Kind typ)))"

text \<open>Pass 2: the fields of an object.\<close>

fun parseObjectFields ::
  "string \<Rightarrow> introspectionField list \<Rightarrow> types \<Rightarrow> (string \<times> Field) list \<Rightarrow> error + (string \<times> Field) list" where
  "parseObjectFields tn [] all fs = Inr fs"
| "parseObjectFields tn (field # rest) all fs =
     (case lookupTypeRef (fld_Type field) all of
        Inl err \<Rightarrow> Inl (TypFieldBadTyp tn (fld_Name field) err)
      | Inr fieldTyp \<Rightarrow>
          (case parseInputFields (fld_Args field) all of
             Inl err \<Rightarrow> Inl (wrap (FieldInput (fld_Name field)) err)
           | Inr parsed \<Rightarrow>
               parseObjectFields tn rest all
                 (AList.update (fld_Name field)
                    \<lparr>Args = parsed, Type = fieldTyp, FederatedKey = None\<rparr> fs)))"

text \<open>
  The members of a union. When the member is not an object of the table, the error message
  reads \<open>typ.Name\<close> of the nil \<open>*graphql.Object\<close> just assigned: the branch panics.
\<close>

fun parsePossibleTypes ::
  "string \<Rightarrow> introspectionTypeRef list \<Rightarrow> types \<Rightarrow> (string \<times> string) list \<Rightarrow> error + (string \<times> string) list" where
  "parsePossibleTypes tn [] all ts = Inr ts"
| "parsePossibleTypes tn (other # rest) all ts =
     (if ref_Kind other \<noteq> ''OBJECT'' then Inl (PossibleTypNotObject tn other)
      else
        (case map_of all (ref_Name other) of
           Some (GObject n fs) \<Rightarrow> parsePossibleTypes tn rest all (AList.update n n ts)
         | _ \<Rightarrow> Inl NilDereference))"

fun parsePopulate :: "introspectionType list \<Rightarrow> types \<Rightarrow> error + types" where
  "parsePopulate [] all = Inr all"
| "parsePopulate (typ # rest) all =
     (if typ_Kind typ = ''OBJECT'' then
        (case parseObjectFields (typ_Name typ) (typ_Fields typ) all [] of
           Inl err \<Rightarrow> Inl err
         | Inr fs \<Rightarrow>
             (case map_of all (typ_Name typ) of
                Some (GObject n old) \<Rightarrow>
                  parsePopulate rest (AList.update (typ_Name typ) (GObject n fs) all)
              | _ \<Rightarrow> Inl FailedTypeAssertion))
      else if typ_Kind typ = ''INPUT_OBJECT'' then
        (case parseInputFields (typ_InputFields typ) all of
           Inl err \<Rightarrow> Inl (wrap (TypError (typ_Name typ)) err)
         | Inr parsed \<Rightarrow>
             (case map_of all (typ_Name typ) of
                Some (GInputObject n old) \<Rightarrow>
                  parsePopulate rest (AList.update (typ_Name typ) (GInputObject n parsed) all)
              | _ \<Rightarrow> Inl FailedTypeAssertion))
      else if typ_Kind typ = ''UNION'' then
        (case parsePossibleTypes (typ_Name typ) (typ_PossibleTypes typ) all [] of
           Inl err \<Rightarrow> Inl err
         | Inr ts \<Rightarrow>
             (case map_of all (typ_Name typ) of
                Some (GUnion n old) \<Rightarrow>
                  parsePopulate rest (AList.update (typ_Name typ) (GUnion n ts) all)
              | _ \<Rightarrow> Inl FailedTypeAssertion))
      else if typ_Kind typ = ''ENUM'' then
        (case map_of all (typ_Name typ) of
           Some (GEnum n vs rm) \<Rightarrow>
             parsePopulate rest
               (AList.update (typ_Name typ)
                  (GEnum n (typ_EnumValues typ)
                     (fold (\<lambda>v m. AList.update v v m) (typ_EnumValues typ) [])) all)
         | _ \<Rightarrow> Inl FailedTypeAssertion)
      else if typ_Kind typ = ''SCALAR'' then parsePopulate rest all
      else Inl (UnknownTypeKind (typ_Kind typ)))"

definition parseSchema :: "IntrospectionQueryResult \<Rightarrow> error + types" where
  "parseSchema schema =
     (case parseShells (Types (Schema schema)) [] of
        Inl err \<Rightarrow> Inl err
      | Inr all \<Rightarrow> parsePopulate (Types (Schema schema)) all)"

subsection \<open>Federation validations\<close>

text \<open>
  Modelled from the spec: the constant \<open>federationField\<close> is declared outside schema.go; the
  spec names the marker field \<open>_federation\<close>.
\<close>

definition federationField :: string where
  "federationField = ''_federation''"

text \<open>
  The loops of the validators that scan \<open>typ.Fields\<close> for a name and then stop are a membership
  test on the field names.
\<close>

definition declaresField :: "introspectionType \<Rightarrow> string \<Rightarrow> bool" where
  "declaresField typ n \<longleftrightarrow> n \<in> set (map fld_Name (typ_Fields typ))"

type_synonym schemasByName = "(string \<times> IntrospectionQueryResult) list"

fun validateFederationKeysTypes :: "introspectionType list \<Rightarrow> string \<Rightarrow> string \<Rightarrow> error + unit" where
  "validateFederationKeysTypes [] objName keyField = Inr ()"
| "validateFederationKeysTypes (typ # rest) objName keyField =
     (if typ_Name typ = objName then
        (let isRootObject = declaresField typ federationField;
             validFederatedKey = (isRootObject \<and> declaresField typ keyField)
         in if isRootObject \<and> \<not> validFederatedKey then Inl (InvalidFederationKey keyField)
            else validateFederationKeysTypes rest objName keyField)
      else validateFederationKeysTypes rest objName keyField)"

text \<open>
  \<open>validateFederationKeys\<close> reads only \<open>obj.Name\<close> of its object, which is the key of the
  object in the table; the model takes that name.
\<close>

fun validateFederationKeys ::
  "string list \<Rightarrow> schemasByName \<Rightarrow> string \<Rightarrow> string \<Rightarrow> error + unit" where
  "validateFederationKeys [] byName objName keyField = Inr ()"
| "validateFederationKeys (service # rest) byName objName keyField =
     (case map_of byName service of
        None \<Rightarrow> Inl NilDereference
      | Some schema \<Rightarrow>
          (case validateFederationKeysTypes (Types (Schema schema)) objName keyField of
             Inl err \<Rightarrow> Inl err
           | Inr u \<Rightarrow> validateFederationKeys rest byName objName keyField))"

definition federatedIn :: "IntrospectionQueryResult \<Rightarrow> string \<Rightarrow> bool" where
  "federatedIn schema objName \<longleftrightarrow>
     (\<exists>typ \<in> set (Types (Schema schema)). typ_Name typ = objName \<and> declaresField typ federationField)"

fun federatedOnOneService :: "string list \<Rightarrow> schemasByName \<Rightarrow> string \<Rightarrow> error + bool" where
  "federatedOnOneService [] byName objName = Inr False"
| "federatedOnOneService (service # rest) byName objName =
     (case map_of byName service of
        None \<Rightarrow> Inl NilDereference
      | Some schema \<Rightarrow>
          (case federatedOnOneService rest byName objName of
             Inl err \<Rightarrow> Inl err
           | Inr b \<Rightarrow> Inr (federatedIn schema objName \<or> b)))"

fun federatedEverywhereTypes :: "introspectionType list \<Rightarrow> string \<Rightarrow> error + unit" where
  "federatedEverywhereTypes [] objName = Inr ()"
| "federatedEverywhereTypes (typ # rest) objName =
     (if typ_Name typ = objName \<and> \<not> declaresField typ federationField then Inl (NotFederated objName)
      else federatedEverywhereTypes rest objName)"

fun federatedEverywhere :: "string list \<Rightarrow> schemasByName \<Rightarrow> string \<Rightarrow> error + unit" where
  "federatedEverywhere [] byName objName = Inr ()"
| "federatedEverywhere (service # rest) byName objName =
     (case map_of byName service of
        None \<Rightarrow> Inl NilDereference
      | Some schema \<Rightarrow>
          (case federatedEverywhereTypes (Types (Schema schema)) objName of
             Inl err \<Rightarrow> Inl err
           | Inr u \<Rightarrow> federatedEverywhere rest byName objName))"

definition validateFederatedObjects :: "string list \<Rightarrow> schemasByName \<Rightarrow> string \<Rightarrow> error + unit" where
  "validateFederatedObjects serviceNames byName objName =
     (case federatedOnOneService serviceNames byName objName of
        Inl err \<Rightarrow> Inl err
      | Inr fed \<Rightarrow>
          if fed \<and> objName \<noteq> ''Query'' \<and> objName \<noteq> ''Mutation''
          then federatedEverywhere serviceNames byName objName
          else Inr ())"

text \<open>
  Modelled from the spec: \<open>fmt.Sprintf("%s_%s", service, fieldReturnType)\<close> formats a type
  reference, whose rendering is declared outside schema.go. The reference is a root one
  (no \<open>OfType\<close>); the spec writes the entry point \<open>S_T\<close> with \<open>T\<close> the type, so a root
  reference renders as its name.
\<close>

definition typeRefString :: "introspectionTypeRef \<Rightarrow> string" where
  "typeRefString t = ref_Name t"

definition federatedFieldNameOf :: "string \<Rightarrow> introspectionTypeRef \<Rightarrow> string" where
  "federatedFieldNameOf service fieldReturnType = service @ ''_'' @ typeRefString fieldReturnType"

type_synonym fieldInfos = "fieldPtr \<rightharpoonup> FieldInfo"

text \<open>
  The loop over \<open>returnObj.Fields\<close>: \<open>names\<close> are the field names of the returned object
  \<open>returnObj\<close>, whose key in the table is \<open>ref_Name fieldReturnType\<close>. \<open>fieldInfos[f]\<close> is
  nil for a field no service annotated, and \<open>.Services\<close> then panics.
\<close>

fun validateReturnObjFields ::
  "types \<Rightarrow> fieldInfos \<Rightarrow> string \<Rightarrow> introspectionField \<Rightarrow> introspectionTypeRef \<Rightarrow> string list \<Rightarrow> error + unit" where
  "validateReturnObjFields types infos service field fieldReturnType [] = Inr ()"
| "validateReturnObjFields types infos service field fieldReturnType (name # rest) =
     (if name = federationField then
        (case infos (Some (ref_Name fieldReturnType, name)) of
           None \<Rightarrow> Inl NilDereference
         | Some info \<Rightarrow>
             if Services info service \<noteq> Some True then
               (let federatedFieldName = federatedFieldNameOf service fieldReturnType in
                if fld_Name field = federatedFieldName
                then validateReturnObjFields types infos service field fieldReturnType rest
                else
                  (case map_of types ''Federation'' of
                     Some (GObject fn fedFields) \<Rightarrow>
                       if federatedFieldName \<in> set (map fst fedFields)
                       then Inl (ShadowType (fld_Name field) (ref_Name fieldReturnType))
                       else validateReturnObjFields types infos service field fieldReturnType rest
                   | _ \<Rightarrow> validateReturnObjFields types infos service field fieldReturnType rest))
             else validateReturnObjFields types infos service field fieldReturnType rest)
      else validateReturnObjFields types infos service field fieldReturnType rest)"

fun validateReturnFields ::
  "types \<Rightarrow> fieldInfos \<Rightarrow> string \<Rightarrow> introspectionField list \<Rightarrow> error + unit" where
  "validateReturnFields types infos service [] = Inr ()"
| "validateReturnFields types infos service (field # rest) =
     (case getRootType (fld_Type field) of
        Inl err \<Rightarrow> Inl err
      | Inr fieldReturnType \<Rightarrow>
          if ref_Kind fieldReturnType \<noteq> ''OBJECT'' then validateReturnFields types infos service rest
          else
            (case map_of types (ref_Name fieldReturnType) of
               Some (GObject rn returnFields) \<Rightarrow>
                 (case validateReturnObjFields types infos service field fieldReturnType
                         (map fst returnFields) of
                    Inl err \<Rightarrow> Inl err
                  | Inr u \<Rightarrow> validateReturnFields types infos service rest)
             | _ \<Rightarrow> Inl (ReturnTypeNotObject (ref_Name fieldReturnType))))"

fun validateReturnTypes ::
  "types \<Rightarrow> fieldInfos \<Rightarrow> string \<Rightarrow> introspectionType list \<Rightarrow> error + unit" where
  "validateReturnTypes types infos service [] = Inr ()"
| "validateReturnTypes types infos service (typ # rest) =
     (if typ_Kind typ \<noteq> ''OBJECT'' then validateReturnTypes types infos service rest
      else
        (case validateReturnFields types infos service (typ_Fields typ) of
           Inl err \<Rightarrow> Inl err
         | Inr u \<Rightarrow> validateReturnTypes types infos service rest))"

text \<open>The function ranges over the map \<open>serviceSchemasByName\<close> and does not read \<open>serviceNames\<close>.\<close>

fun validateFieldsReturningFederatedObject ::
  "string list \<Rightarrow> schemasByName \<Rightarrow> types \<Rightarrow> fieldInfos \<Rightarrow> error + unit" where
  "validateFieldsReturningFederatedObject serviceNames [] types infos = Inr ()"
| "validateFieldsReturningFederatedObject serviceNames ((service, serviceSchema) # rest) types infos =
     (case validateReturnTypes types infos service (Types (Schema serviceSchema)) of
        Inl err \<Rightarrow> Inl err
      | Inr u \<Rightarrow> validateFieldsReturningFederatedObject serviceNames rest types infos)"

subsection \<open>ConvertVersionedSchemas\<close>

datatype MergeMode = IntersectionMode | UnionMode

text \<open>
  \<open>mergeSchemaSlice\<close> is defined outside schema.go. \<open>ConvertVersionedSchemas\<close> takes it as
  the parameter \<open>mss\<close>, so that what is proved of it holds for every merge function.
\<close>

type_synonym merger = "IntrospectionQueryResult list \<Rightarrow> MergeMode \<Rightarrow> error + IntrospectionQueryResult"

text \<open>The sorted keys of a Go map.\<close>

definition sortedKeys :: "(string \<times> 'a) list \<Rightarrow> string list" where
  "sortedKeys m = sort (remdups (map fst m))"

text \<open>Ranging over a missing key's nil map visits nothing.\<close>

definition versionsOf :: "serviceSchemas \<Rightarrow> string \<Rightarrow> (string \<times> IntrospectionQueryResult) list" where
  "versionsOf schemas service = (case map_of schemas service of None \<Rightarrow> [] | Some versions \<Rightarrow> versions)"

definition versionSchemasOf :: "(string \<times> IntrospectionQueryResult) list \<Rightarrow> IntrospectionQueryResult list" where
  "versionSchemasOf versions =
     concat (map (\<lambda>version. case map_of versions version of None \<Rightarrow> [] | Some s \<Rightarrow> [s]) (sortedKeys versions))"

text \<open>Lines 183 to 205: the intersection of the versions of every service, in service order.\<close>

fun intersectVersions :: "merger \<Rightarrow> serviceSchemas \<Rightarrow> string list \<Rightarrow> error + schemasByName" where
  "intersectVersions mss schemas [] = Inr []"
| "intersectVersions mss schemas (service # rest) =
     (case mss (versionSchemasOf (versionsOf schemas service)) IntersectionMode of
        Inl err \<Rightarrow> Inl err
      | Inr serviceSchema \<Rightarrow>
          (case intersectVersions mss schemas rest of
             Inl err \<Rightarrow> Inl err
           | Inr byName \<Rightarrow> Inr ((service, serviceSchema) # byName)))"

text \<open>Lines 217 to 221.\<close>

fun validateAllFederatedObjects :: "string list \<Rightarrow> schemasByName \<Rightarrow> string list \<Rightarrow> error + unit" where
  "validateAllFederatedObjects serviceNames byName [] = Inr ()"
| "validateAllFederatedObjects serviceNames byName (name # rest) =
     (case validateFederatedObjects serviceNames byName name of
        Inl err \<Rightarrow> Inl (wrap (ExpectedFederated name) err)
      | Inr u \<Rightarrow> validateAllFederatedObjects serviceNames byName rest)"

text \<open>\<open>strings.SplitN(s, "_", 2)\<close>: split at the first underscore, if there is one.\<close>

definition SplitN2 :: "string \<Rightarrow> string list" where
  "SplitN2 s =
     (case dropWhile (\<lambda>c. c \<noteq> CHR ''_'') s of
        [] \<Rightarrow> [s]
      | u # rest \<Rightarrow> [takeWhile (\<lambda>c. c \<noteq> CHR ''_'') s, rest])"

text \<open>
  Reading and writing through the pointer \<open>obj\<close> to an object of the table, which the code
  holds only after the checked type assertion of line 238.
\<close>

definition objFields :: "types \<Rightarrow> string \<Rightarrow> (string \<times> Field) list" where
  "objFields types n = (case map_of types n of Some (GObject on fs) \<Rightarrow> fs | _ \<Rightarrow> [])"

definition setObjFields :: "string \<Rightarrow> (string \<times> Field) list \<Rightarrow> types \<Rightarrow> types" where
  "setObjFields n fs types =
     (case map_of types n of Some (GObject on old) \<Rightarrow> AList.update n (GObject on fs) types | _ \<Rightarrow> types)"

text \<open>Lines 253 to 261; \<open>names\<close> are the keys of \<open>inputType.InputFields\<close>.\<close>

fun checkInputFields ::
  "string list \<Rightarrow> schemasByName \<Rightarrow> types \<Rightarrow> string \<Rightarrow> string \<Rightarrow> string list \<Rightarrow> error + unit" where
  "checkInputFields serviceNames byName types objName rootName [] = Inr ()"
| "checkInputFields serviceNames byName types objName rootName (fName # rest) =
     (case validateFederationKeys serviceNames byName objName fName of
        Inl err \<Rightarrow> Inl err
      | Inr u \<Rightarrow>
          if map_of (objFields types objName) fName = None
          then Inl (InputFieldNotOnObject fName rootName)
          else checkInputFields serviceNames byName types objName rootName rest)"

text \<open>Lines 265 to 273.\<close>

definition setFederatedKey :: "string \<Rightarrow> Field \<Rightarrow> Field" where
  "setFederatedKey service f =
     f\<lparr>FederatedKey := Some ((case FederatedKey f of None \<Rightarrow> Map.empty | Some m \<Rightarrow> m)(service \<mapsto> True))\<rparr>"

definition markFederatedKeys ::
  "string \<Rightarrow> (string \<times> gtype) list \<Rightarrow> (string \<times> Field) list \<Rightarrow> (string \<times> Field) list" where
  "markFederatedKeys service inputFields fs =
     map (\<lambda>(fName, f). if fName \<in> set (map fst inputFields) then (fName, setFederatedKey service f)
                        else (fName, f)) fs"

text \<open>
  A \<open>for ... range\<close> loop whose body updates the state or returns an error: the loop stops
  at the first error.
\<close>

fun forEach :: "('a \<Rightarrow> 's \<Rightarrow> error + 's) \<Rightarrow> 'a list \<Rightarrow> 's \<Rightarrow> error + 's" where
  "forEach body [] st = Inr st"
| "forEach body (x # xs) st =
     (case body x st of
        Inl err \<Rightarrow> Inl err
      | Inr st' \<Rightarrow> forEach body xs st')"

text \<open>Lines 243 to 274: one argument of an entry of the \<open>Federation\<close> type.\<close>

definition annotateArg ::
  "string list \<Rightarrow> schemasByName \<Rightarrow> string \<Rightarrow> string \<Rightarrow> string \<Rightarrow> introspectionInputField \<Rightarrow> types
     \<Rightarrow> error + types" where
  "annotateArg serviceNames byName service fieldName objName arg types =
     (case getRootType (inp_Type arg) of
        Inl err \<Rightarrow> Inl err
      | Inr rootType \<Rightarrow>
          (case map_of types (ref_Name rootType) of
             Some (GInputObject n inputFields) \<Rightarrow>
               (case checkInputFields serviceNames byName types objName (ref_Name rootType)
                       (map fst inputFields) of
                  Inl err \<Rightarrow> Inl err
                | Inr u \<Rightarrow>
                    Inr (setObjFields objName
                           (markFederatedKeys service inputFields (objFields types objName)) types))
           | _ \<Rightarrow> Inl (NotInputObject (ref_Name rootType) fieldName)))"

text \<open>Lines 230 to 275: one field of a type named \<open>Federation\<close>.\<close>

definition annotateEntry ::
  "string list \<Rightarrow> schemasByName \<Rightarrow> string \<Rightarrow> introspectionField \<Rightarrow> types \<Rightarrow> error + types" where
  "annotateEntry serviceNames byName service field types =
     (case SplitN2 (fld_Name field) of
        [prefix, objName] \<Rightarrow>
          (case map_of types objName of
             Some (GObject on ofs) \<Rightarrow>
               forEach (annotateArg serviceNames byName service (fld_Name field) objName)
                 (fld_Args field) types
           | _ \<Rightarrow> Inl (ExpectedObjectName objName))
      | _ \<Rightarrow> Inl (NoObjectName (fld_Name field)))"

text \<open>
  Lines 280 to 292. \<open>obj.Fields[field.Name]\<close> is the nil pointer when the object has no
  such field, and nil is then the key of \<open>fieldInfos\<close>.
\<close>

definition fieldPointer :: "types \<Rightarrow> string \<Rightarrow> string \<Rightarrow> fieldPtr" where
  "fieldPointer types objName fieldName =
     (if map_of (objFields types objName) fieldName = None then None else Some (objName, fieldName))"

definition addService :: "string \<Rightarrow> fieldPtr \<Rightarrow> fieldInfos \<Rightarrow> fieldInfos" where
  "addService service f infos =
     (let info = (case infos f of None \<Rightarrow> \<lparr>Services = Map.empty\<rparr> | Some i \<Rightarrow> i)
      in infos(f \<mapsto> info\<lparr>Services := (Services info)(service \<mapsto> True)\<rparr>))"

fun annotateObjectFields ::
  "string \<Rightarrow> types \<Rightarrow> string \<Rightarrow> introspectionField list \<Rightarrow> fieldInfos \<Rightarrow> fieldInfos" where
  "annotateObjectFields service types objName [] infos = infos"
| "annotateObjectFields service types objName (field # rest) infos =
     annotateObjectFields service types objName rest
       (addService service (fieldPointer types objName (fld_Name field)) infos)"

text \<open>
  Lines 225 to 294: one type of one service. The type assertion of line 278 is unchecked
  and panics when the table holds no object under the name.
\<close>

definition annotateType ::
  "string list \<Rightarrow> schemasByName \<Rightarrow> string \<Rightarrow> introspectionType \<Rightarrow> types \<times> fieldInfos
     \<Rightarrow> error + types \<times> fieldInfos" where
  "annotateType serviceNames byName service typ st =
     (case (if typ_Name typ = ''Federation''
            then forEach (annotateEntry serviceNames byName service) (typ_Fields typ) (fst st)
            else Inr (fst st)) of
        Inl err \<Rightarrow> Inl err
      | Inr types' \<Rightarrow>
          if typ_Kind typ = ''OBJECT'' then
            (case map_of types' (typ_Name typ) of
               Some (GObject on ofs) \<Rightarrow>
                 Inr (types', annotateObjectFields service types' (typ_Name typ) (typ_Fields typ) (snd st))
             | _ \<Rightarrow> Inl FailedTypeAssertion)
          else Inr (types', snd st))"

text \<open>Lines 224 to 295: one service.\<close>

definition annotateService ::
  "string list \<Rightarrow> schemasByName \<Rightarrow> string \<Rightarrow> types \<times> fieldInfos \<Rightarrow> error + types \<times> fieldInfos" where
  "annotateService serviceNames byName service st =
     (case map_of byName service of
        None \<Rightarrow> Inl NilDereference
      | Some schema \<Rightarrow> forEach (annotateType serviceNames byName service) (Types (Schema schema)) st)"

text \<open>Lines 173 to 216: the merged schema of the services and its type table.\<close>

definition mergeAndParse :: "merger \<Rightarrow> serviceSchemas \<Rightarrow> error + schemasByName \<times> types" where
  "mergeAndParse mss schemas =
     (case intersectVersions mss schemas (sortedKeys schemas) of
        Inl err \<Rightarrow> Inl err
      | Inr byName \<Rightarrow>
          (case mss (map snd byName) UnionMode of
             Inl err \<Rightarrow> Inl err
           | Inr merged \<Rightarrow>
               (case parseSchema merged of
                  Inl err \<Rightarrow> Inl err
                | Inr types \<Rightarrow> Inr (byName, types))))"

text \<open>Lines 217 to 308: the validations and the annotation.\<close>

definition federate :: "string list \<Rightarrow> schemasByName \<Rightarrow> types \<Rightarrow> error + SchemaWithFederationInfo" where
  "federate serviceNames byName types =
     (case validateAllFederatedObjects serviceNames byName (map fst types) of
        Inl err \<Rightarrow> Inl err
      | Inr u \<Rightarrow>
          (case forEach (annotateService serviceNames byName) serviceNames (types, Map.empty) of
             Inl err \<Rightarrow> Inl err
           | Inr (types', infos) \<Rightarrow>
               (case validateFieldsReturningFederatedObject serviceNames byName types' infos of
                  Inl err \<Rightarrow> Inl (wrap CannotShadow err)
                | Inr u \<Rightarrow>
                    Inr \<lparr>SchemaOf = \<lparr>Query = map_of types' ''Query'', Mutation = map_of types' ''Mutation''\<rparr>,
                         Fields = infos, TypeTable = types'\<rparr>)))"

definition ConvertVersionedSchemas :: "merger \<Rightarrow> serviceSchemas \<Rightarrow> error + SchemaWithFederationInfo" where
  "ConvertVersionedSchemas mss schemas =
     (case mergeAndParse mss schemas of
        Inl err \<Rightarrow> Inl err
      | Inr (byName, types) \<Rightarrow> federate (sortedKeys schemas) byName types)"

subsection \<open>The merge of introspected schemas\<close>

text \<open>
  Modelled from the spec: \<open>mergeSchemaSlice\<close> and the merge of two schemas under it are
  defined outside schema.go. The spec (4.1): under Intersection the merger retains only the
  type, field and enum-value entries present in every version, under structural equality
  of type references; under Union it retains the union of types and fields, and a field that
  appears in several services must have structurally identical return-type references,
  otherwise the merge fails with a type-conflict error. The spec does not say what an empty
  slice merges to; the model makes it an error, and nothing below depends on that choice.
  The theorems about \<open>ConvertVersionedSchemas\<close> hold for every merge function; this one
  instantiates them at concrete inputs.
\<close>

definition unionFields :: "introspectionField list \<Rightarrow> introspectionField list \<Rightarrow> error + introspectionField list" where
  "unionFields a b =
     (case find (\<lambda>fa. \<exists>fb \<in> set b. fld_Name fb = fld_Name fa \<and> fld_Type fb \<noteq> fld_Type fa) a of
        Some fa \<Rightarrow> Inl (MergeFailure (fld_Name fa))
      | None \<Rightarrow> Inr (a @ filter (\<lambda>fb. fld_Name fb \<notin> set (map fld_Name a)) b))"

definition intersectFields :: "introspectionField list \<Rightarrow> introspectionField list \<Rightarrow> introspectionField list" where
  "intersectFields a b =
     filter (\<lambda>fa. \<exists>fb \<in> set b. fld_Name fb = fld_Name fa \<and> fld_Type fb = fld_Type fa) a"

definition unionInputFields ::
  "introspectionInputField list \<Rightarrow> introspectionInputField list \<Rightarrow> introspectionInputField list" where
  "unionInputFields a b = a @ filter (\<lambda>fb. inp_Name fb \<notin> set (map inp_Name a)) b"

definition intersectInputFields ::
  "introspectionInputField list \<Rightarrow> introspectionInputField list \<Rightarrow> introspectionInputField list" where
  "intersectInputFields a b =
     filter (\<lambda>fa. \<exists>fb \<in> set b. inp_Name fb = inp_Name fa \<and> inp_Type fb = inp_Type fa) a"

definition mergeTypes :: "MergeMode \<Rightarrow> introspectionType \<Rightarrow> introspectionType \<Rightarrow> error + introspectionType" where
  "mergeTypes mode a b =
     (case mode of
        UnionMode \<Rightarrow>
          (case unionFields (typ_Fields a) (typ_Fields b) of
             Inl err \<Rightarrow> Inl err
           | Inr fs \<Rightarrow>
               Inr (a\<lparr>typ_Fields := fs,
                      typ_InputFields := unionInputFields (typ_InputFields a) (typ_InputFields b),
                      typ_PossibleTypes := typ_PossibleTypes a
                         @ filter (\<lambda>t. t \<notin> set (typ_PossibleTypes a)) (typ_PossibleTypes b),
                      typ_EnumValues := typ_EnumValues a
                         @ filter (\<lambda>v. v \<notin> set (typ_EnumValues a)) (typ_EnumValues b)\<rparr>))
      | IntersectionMode \<Rightarrow>
          Inr (a\<lparr>typ_Fields := intersectFields (typ_Fields a) (typ_Fields b),
                 typ_InputFields := intersectInputFields (typ_InputFields a) (typ_InputFields b),
                 typ_PossibleTypes := filter (\<lambda>t. t \<in> set (typ_PossibleTypes b)) (typ_PossibleTypes a),
                 typ_EnumValues := filter (\<lambda>v. v \<in> set (typ_EnumValues b)) (typ_EnumValues a)\<rparr>))"

fun mergeTypeList ::
  "MergeMode \<Rightarrow> introspectionType list \<Rightarrow> introspectionType list \<Rightarrow> error + introspectionType list" where
  "mergeTypeList mode [] bs = Inr []"
| "mergeTypeList mode (a # as) bs =
     (case find (\<lambda>b. typ_Name b = typ_Name a) bs of
        None \<Rightarrow>
          (case mergeTypeList mode as bs of
             Inl err \<Rightarrow> Inl err
           | Inr r \<Rightarrow> Inr (if mode = UnionMode then a # r else r))
      | Some b \<Rightarrow>
          (case mergeTypes mode a b of
             Inl err \<Rightarrow> Inl err
           | Inr m \<Rightarrow>
               (case mergeTypeList mode as bs of
                  Inl err \<Rightarrow> Inl err
                | Inr r \<Rightarrow> Inr (m # r))))"

definition mergeSchemas ::
  "MergeMode \<Rightarrow> IntrospectionQueryResult \<Rightarrow> IntrospectionQueryResult \<Rightarrow> error + IntrospectionQueryResult" where
  "mergeSchemas mode a b =
     (case mergeTypeList mode (Types (Schema a)) (Types (Schema b)) of
        Inl err \<Rightarrow> Inl err
      | Inr ts \<Rightarrow>
          Inr \<lparr>Schema = \<lparr>Types = ts @
                 (if mode = UnionMode
                  then filter (\<lambda>tb. typ_Name tb \<notin> set (map typ_Name (Types (Schema a)))) (Types (Schema b))
                  else [])\<rparr>\<rparr>)"

fun mergeSchemaSlice :: merger where
  "mergeSchemaSlice [] mode = Inl (MergeFailure ''no schemas'')"
| "mergeSchemaSlice [s] mode = Inr s"
| "mergeSchemaSlice (s # t # rest) mode =
     (case mergeSchemas mode s t of
        Inl err \<Rightarrow> Inl err
      | Inr m \<Rightarrow> mergeSchemaSlice (m # rest) mode)"

subsection \<open>Vocabulary of the properties\<close>

text \<open>
  The inputs \<open>parseSchema\<close> checks: the arguments of the fields of the OBJECT types and the
  input fields of the INPUT_OBJECT types.
\<close>

definition checkedInputs :: "IntrospectionQueryResult \<Rightarrow> introspectionInputField list" where
  "checkedInputs s =
     concat (map (\<lambda>t. if typ_Kind t = ''OBJECT'' then concat (map fld_Args (typ_Fields t))
                       else if typ_Kind t = ''INPUT_OBJECT'' then typ_InputFields t
                       else [])
               (Types (Schema s)))"

text \<open>
  The innermost reference of a type reference is the fully unwrapped one: \<open>OfType\<close> is
  followed to its end, whatever the kinds on the way.
\<close>

fun innermost :: "introspectionTypeRef \<Rightarrow> introspectionTypeRef" where
  "innermost (TypeRef k n None) = TypeRef k n None"
| "innermost (TypeRef k n (Some t)) = innermost t"

definition innermostKind :: "introspectionTypeRef option \<Rightarrow> string option" where
  "innermostKind t = map_option (\<lambda>r. ref_Kind (innermost r)) t"

text \<open>
  The reference under the wrappers is the first one of the \<open>OfType\<close> chain whose kind is
  neither LIST nor NON_NULL; there is none when the chain ends in a wrapper or the pointer
  is nil. A reference is plain when the one under its wrappers carries no \<open>OfType\<close> of its
  own, as in every introspection result of a GraphQL server; the reference under the
  wrappers is then the innermost one.
\<close>

fun underWrappers :: "introspectionTypeRef option \<Rightarrow> introspectionTypeRef option" where
  "underWrappers None = None"
| "underWrappers (Some (TypeRef k n ot)) =
     (if k = ''LIST'' \<or> k = ''NON_NULL'' then underWrappers ot else Some (TypeRef k n ot))"

definition plainReference :: "introspectionTypeRef option \<Rightarrow> bool" where
  "plainReference t \<longleftrightarrow> (case underWrappers t of None \<Rightarrow> True | Some r \<Rightarrow> ref_OfType r = None)"

definition inputKind :: "string \<Rightarrow> bool" where
  "inputKind k \<longleftrightarrow> k = ''INPUT_OBJECT'' \<or> k = ''SCALAR'' \<or> k = ''ENUM''"

definition acceptedInput :: "introspectionInputField \<Rightarrow> bool" where
  "acceptedInput a \<longleftrightarrow>
     (case underWrappers (inp_Type a) of None \<Rightarrow> False | Some r \<Rightarrow> inputKind (ref_Kind r))"

definition rejectedInput :: "introspectionInputField \<Rightarrow> bool" where
  "rejectedInput a \<longleftrightarrow>
     (case underWrappers (inp_Type a) of
        None \<Rightarrow> False
      | Some r \<Rightarrow> ref_Kind r = ''OBJECT'' \<or> ref_Kind r = ''UNION'')"

text \<open>
  The inputs on which \<open>parseSchema\<close> can reach one of its two panicking error branches. A
  reference is malformed when there is no reference under its wrappers or that reference
  has none of the five kinds of named types: \<open>lookupType\<close> then returns an error. A member
  of a union dangles when it has kind OBJECT and names no OBJECT type of the schema. A type
  can panic when it is an OBJECT with a malformed argument reference, an INPUT_OBJECT with
  a malformed input field reference, or a UNION with a dangling member.
\<close>

definition malformedReference :: "introspectionTypeRef option \<Rightarrow> bool" where
  "malformedReference t \<longleftrightarrow>
     (case underWrappers t of None \<Rightarrow> True | Some r \<Rightarrow> \<not> namedKind (ref_Kind r))"

definition danglingMember :: "introspectionType list \<Rightarrow> introspectionTypeRef \<Rightarrow> bool" where
  "danglingMember ts other \<longleftrightarrow>
     ref_Kind other = ''OBJECT''
     \<and> \<not> (\<exists>t \<in> set ts. typ_Name t = ref_Name other \<and> typ_Kind t = ''OBJECT'')"

definition mayPanicAt :: "introspectionType list \<Rightarrow> introspectionType \<Rightarrow> bool" where
  "mayPanicAt ts t \<longleftrightarrow>
     (typ_Kind t = ''OBJECT''
        \<and> (\<exists>f \<in> set (typ_Fields t). \<exists>a \<in> set (fld_Args f). malformedReference (inp_Type a)))
     \<or> (typ_Kind t = ''INPUT_OBJECT''
        \<and> (\<exists>a \<in> set (typ_InputFields t). malformedReference (inp_Type a)))
     \<or> (typ_Kind t = ''UNION''
        \<and> (\<exists>other \<in> set (typ_PossibleTypes t). danglingMember ts other))"

definition mayPanic :: "IntrospectionQueryResult \<Rightarrow> bool" where
  "mayPanic s \<longleftrightarrow> (\<exists>t \<in> set (Types (Schema s)). mayPanicAt (Types (Schema s)) t)"

text \<open>
  A reference resolves against a list of declared names when, under its LIST and NON_NULL
  wrappers, it names one of them. The named type may be any declared type, the declaring
  one included: nothing here asks the references to be acyclic.
\<close>

fun resolvable :: "string list \<Rightarrow> introspectionTypeRef option \<Rightarrow> bool" where
  "resolvable names None = False"
| "resolvable names (Some (TypeRef k n ot)) =
     (if namedKind k then n \<in> set names
      else (k = ''LIST'' \<or> k = ''NON_NULL'') \<and> resolvable names ot)"

definition wellFormedInput :: "string list \<Rightarrow> introspectionInputField \<Rightarrow> bool" where
  "wellFormedInput names a \<longleftrightarrow> acceptedInput a \<and> resolvable names (inp_Type a)"

definition wellFormedType :: "introspectionType list \<Rightarrow> introspectionType \<Rightarrow> bool" where
  "wellFormedType ts t \<longleftrightarrow>
     namedKind (typ_Kind t)
     \<and> (typ_Kind t = ''OBJECT'' \<longrightarrow>
          (\<forall>f \<in> set (typ_Fields t). resolvable (map typ_Name ts) (fld_Type f)
             \<and> (\<forall>a \<in> set (fld_Args f). wellFormedInput (map typ_Name ts) a)))
     \<and> (typ_Kind t = ''INPUT_OBJECT'' \<longrightarrow>
          (\<forall>a \<in> set (typ_InputFields t). wellFormedInput (map typ_Name ts) a))
     \<and> (typ_Kind t = ''UNION'' \<longrightarrow>
          (\<forall>other \<in> set (typ_PossibleTypes t). ref_Kind other = ''OBJECT''
             \<and> (\<exists>t' \<in> set ts. typ_Name t' = ref_Name other \<and> typ_Kind t' = ''OBJECT'')))"

definition wellFormed :: "IntrospectionQueryResult \<Rightarrow> bool" where
  "wellFormed s \<longleftrightarrow>
     distinct (map typ_Name (Types (Schema s)))
     \<and> (\<forall>t \<in> set (Types (Schema s)). wellFormedType (Types (Schema s)) t)"

text \<open>The kind a shell of the table stands for.\<close>

fun kindOf :: "gshell \<Rightarrow> string" where
  "kindOf (GObject n fs) = ''OBJECT''"
| "kindOf (GInputObject n fs) = ''INPUT_OBJECT''"
| "kindOf (GScalar n) = ''SCALAR''"
| "kindOf (GUnion n ts) = ''UNION''"
| "kindOf (GEnum n vs rm) = ''ENUM''"

definition skeleton :: "types \<Rightarrow> (string \<times> string) list" where
  "skeleton tbl = map (\<lambda>(n, sh). (n, kindOf sh)) tbl"

text \<open>
  The table with the \<open>FederatedKey\<close> annotations removed. The annotation loop changes
  nothing else in the table.
\<close>

definition eraseField :: "Field \<Rightarrow> Field" where
  "eraseField f = f\<lparr>FederatedKey := None\<rparr>"

fun eraseShell :: "gshell \<Rightarrow> gshell" where
  "eraseShell (GObject n fs) = GObject n (map (\<lambda>(k, f). (k, eraseField f)) fs)"
| "eraseShell sh = sh"

definition erase :: "types \<Rightarrow> types" where
  "erase tbl = map (\<lambda>(n, sh). (n, eraseShell sh)) tbl"

text \<open>\<open>fieldInfos[f].Services[service]\<close> is true.\<close>

definition served :: "fieldInfos \<Rightarrow> fieldPtr \<Rightarrow> string \<Rightarrow> bool" where
  "served infos f service \<longleftrightarrow> (case infos f of None \<Rightarrow> False | Some info \<Rightarrow> Services info service = Some True)"

text \<open>The field \<open>key\<close> of the object \<open>obj\<close> of the table has \<open>FederatedKey[service]\<close> true.\<close>

definition keyed :: "types \<Rightarrow> string \<Rightarrow> string \<Rightarrow> string \<Rightarrow> bool" where
  "keyed tbl obj key service \<longleftrightarrow>
     (case map_of (objFields tbl obj) key of
        None \<Rightarrow> False
      | Some f \<Rightarrow> (case FederatedKey f of None \<Rightarrow> False | Some m \<Rightarrow> m service = Some True))"

text \<open>
  The argument \<open>arg\<close> names, in the table, an input object with an input field \<open>key\<close>; the
  service's schema has an entry point for \<open>objName\<close>, a field of a type named \<open>Federation\<close>
  whose name has \<open>objName\<close> after its first underscore, with such an argument.
\<close>

definition argNamesKey :: "types \<Rightarrow> introspectionInputField \<Rightarrow> string \<Rightarrow> bool" where
  "argNamesKey tbl arg key \<longleftrightarrow>
     (case getRootType (inp_Type arg) of
        Inl err \<Rightarrow> False
      | Inr rootType \<Rightarrow>
          (case map_of tbl (ref_Name rootType) of
             Some (GInputObject n inputFields) \<Rightarrow> key \<in> set (map fst inputFields)
           | _ \<Rightarrow> False))"

definition entryKey :: "schemasByName \<Rightarrow> types \<Rightarrow> string \<Rightarrow> string \<Rightarrow> string \<Rightarrow> bool" where
  "entryKey byName tbl service objName key \<longleftrightarrow>
     (case map_of byName service of
        None \<Rightarrow> False
      | Some schema \<Rightarrow>
          (\<exists>ty \<in> set (Types (Schema schema)). typ_Name ty = ''Federation'' \<and>
             (\<exists>field \<in> set (typ_Fields ty).
                length (SplitN2 (fld_Name field)) = 2 \<and> SplitN2 (fld_Name field) ! 1 = objName \<and>
                (\<exists>arg \<in> set (fld_Args field). argNamesKey tbl arg key))))"




subsection \<open>Example inputs\<close>

definition mkType ::
  "string \<Rightarrow> string \<Rightarrow> introspectionField list \<Rightarrow> introspectionInputField list \<Rightarrow> introspectionType" where
  "mkType n k fs ifs =
     \<lparr>typ_Name = n, typ_Kind = k, typ_Fields = fs, typ_InputFields = ifs,
      typ_PossibleTypes = [], typ_EnumValues = []\<rparr>"

definition mkField ::
  "string \<Rightarrow> introspectionTypeRef option \<Rightarrow> introspectionInputField list \<Rightarrow> introspectionField" where
  "mkField n t as = \<lparr>fld_Name = n, fld_Type = t, fld_Args = as\<rparr>"

definition mkInput :: "string \<Rightarrow> introspectionTypeRef option \<Rightarrow> introspectionInputField" where
  "mkInput n t = \<lparr>inp_Name = n, inp_Type = t\<rparr>"

definition mkSchema :: "introspectionType list \<Rightarrow> IntrospectionQueryResult" where
  "mkSchema ts = \<lparr>Schema = \<lparr>Types = ts\<rparr>\<rparr>"

definition named :: "string \<Rightarrow> string \<Rightarrow> introspectionTypeRef option" where
  "named k n = Some (TypeRef k n None)"

definition listOf :: "introspectionTypeRef option \<Rightarrow> introspectionTypeRef option" where
  "listOf t = Some (TypeRef ''LIST'' [] t)"

text \<open>Two entries named \<open>A\<close>, the first of which has a kind the gateway does not know.\<close>

definition twiceUnknown :: IntrospectionQueryResult where
  "twiceUnknown = mkSchema [mkType ''A'' ''INTERFACE'' [] [], mkType ''A'' ''OBJECT'' [] []]"

definition repeatedName :: IntrospectionQueryResult where
  "repeatedName = mkSchema [mkType ''A'' ''OBJECT'' [] [], mkType ''A'' ''OBJECT'' [] []]"

definition unknownKind :: IntrospectionQueryResult where
  "unknownKind = mkSchema [mkType ''A'' ''OBJECT'' [] [], mkType ''B'' ''INTERFACE'' [] []]"

text \<open>The cyclic object of the spec's scenarios: \<open>Foo.s1nest: Foo\<close>.\<close>

definition cyclicFoo :: IntrospectionQueryResult where
  "cyclicFoo =
     mkSchema
       [mkType ''string'' ''SCALAR'' [] [],
        mkType ''Foo'' ''OBJECT''
          [mkField ''name'' (named ''SCALAR'' ''string'') [],
           mkField ''s1nest'' (named ''OBJECT'' ''Foo'') [],
           mkField ''s1list'' (listOf (named ''OBJECT'' ''Foo'')) []] []]"

text \<open>An argument of object type, behind a list wrapper.\<close>

definition objectArgument :: IntrospectionQueryResult where
  "objectArgument =
     mkSchema
       [mkType ''Foo'' ''OBJECT'' [] [],
        mkType ''Query'' ''OBJECT''
          [mkField ''find'' (named ''OBJECT'' ''Foo'') [mkInput ''like'' (listOf (named ''OBJECT'' ''Foo''))]] []]"

text \<open>
  An argument whose reference has kind SCALAR and an \<open>OfType\<close> of kind OBJECT: the reference
  under the wrappers is the scalar, the innermost one the object.
\<close>

definition scalarOverObject :: IntrospectionQueryResult where
  "scalarOverObject =
     mkSchema
       [mkType ''string'' ''SCALAR'' [] [],
        mkType ''Foo'' ''OBJECT'' [] [],
        mkType ''Query'' ''OBJECT''
          [mkField ''find'' (named ''OBJECT'' ''Foo'')
             [mkInput ''like'' (Some (TypeRef ''SCALAR'' ''string'' (named ''OBJECT'' ''Foo'')))]] []]"

text \<open>An argument whose reference has a kind the gateway does not know.\<close>

definition interfaceArgument :: IntrospectionQueryResult where
  "interfaceArgument =
     mkSchema
       [mkType ''Foo'' ''OBJECT'' [] [],
        mkType ''Query'' ''OBJECT''
          [mkField ''find'' (named ''OBJECT'' ''Foo'') [mkInput ''like'' (named ''INTERFACE'' ''Node'')]] []]"

text \<open>The same argument, followed by an argument of object type.\<close>

definition interfaceThenObject :: IntrospectionQueryResult where
  "interfaceThenObject =
     mkSchema
       [mkType ''Foo'' ''OBJECT'' [] [],
        mkType ''Query'' ''OBJECT''
          [mkField ''find'' (named ''OBJECT'' ''Foo'')
             [mkInput ''first'' (named ''INTERFACE'' ''Node''),
              mkInput ''like'' (named ''OBJECT'' ''Foo'')]] []]"

text \<open>A union with a member that the schema does not declare.\<close>

definition unionOfMissing :: IntrospectionQueryResult where
  "unionOfMissing =
     mkSchema
       [mkType ''Foo'' ''OBJECT'' [] [],
        (mkType ''Pet'' ''UNION'' [] [])
          \<lparr>typ_PossibleTypes := [TypeRef ''OBJECT'' ''Foo'' None, TypeRef ''OBJECT'' ''Dog'' None]\<rparr>]"

text \<open>
  Two services that share the federated object \<open>Foo\<close>. Service \<open>B\<close> offers the entry point
  \<open>B_Foo\<close>, whose input object names the key \<open>name\<close>.
\<close>

definition serviceA :: IntrospectionQueryResult where
  "serviceA =
     mkSchema
       [mkType ''string'' ''SCALAR'' [] [],
        mkType ''Foo'' ''OBJECT''
          [mkField ''_federation'' (named ''SCALAR'' ''string'') [],
           mkField ''name'' (named ''SCALAR'' ''string'') []] [],
        mkType ''Query'' ''OBJECT'' [mkField ''s1f'' (named ''OBJECT'' ''Foo'') []] []]"

definition serviceB :: IntrospectionQueryResult where
  "serviceB =
     mkSchema
       [mkType ''string'' ''SCALAR'' [] [],
        mkType ''Foo'' ''OBJECT''
          [mkField ''_federation'' (named ''SCALAR'' ''string'') [],
           mkField ''name'' (named ''SCALAR'' ''string'') [],
           mkField ''s2ok'' (named ''SCALAR'' ''string'') []] [],
        mkType ''FooKeys'' ''INPUT_OBJECT'' [] [mkInput ''name'' (named ''SCALAR'' ''string'')],
        mkType ''Federation'' ''OBJECT''
          [mkField ''B_Foo'' (named ''OBJECT'' ''Foo'') [mkInput ''keys'' (named ''INPUT_OBJECT'' ''FooKeys'')]] []]"

definition twoServices :: serviceSchemas where
  "twoServices = [(''B'', [('''', serviceB)]), (''A'', [('''', serviceA)])]"

text \<open>
  Service \<open>B\<close> declares the entry point for \<open>Foo\<close> under the name \<open>A_Foo\<close>, the prefix of
  another service.
\<close>

definition serviceBMisnamed :: IntrospectionQueryResult where
  "serviceBMisnamed =
     mkSchema
       [mkType ''string'' ''SCALAR'' [] [],
        mkType ''Foo'' ''OBJECT''
          [mkField ''_federation'' (named ''SCALAR'' ''string'') [],
           mkField ''name'' (named ''SCALAR'' ''string'') [],
           mkField ''s2ok'' (named ''SCALAR'' ''string'') []] [],
        mkType ''FooKeys'' ''INPUT_OBJECT'' [] [mkInput ''name'' (named ''SCALAR'' ''string'')],
        mkType ''Federation'' ''OBJECT''
          [mkField ''A_Foo'' (named ''OBJECT'' ''Foo'') [mkInput ''keys'' (named ''INPUT_OBJECT'' ''FooKeys'')]] []]"

definition misnamedEntry :: serviceSchemas where
  "misnamedEntry = [(''A'', [('''', serviceA)]), (''B'', [('''', serviceBMisnamed)])]"














section \<open>Properties of parseSchema\<close>

lemma map_of_None_keys: "map_of al k = None \<longleftrightarrow> k \<notin> set (map fst al)"
  by (simp add: map_of_eq_None_iff)

lemma update_fresh_keys: "k \<notin> set (map fst al) \<Longrightarrow> map fst (AList.update k v al) = map fst al @ [k]"
  by (simp add: update_keys)

lemma update_present_keys: "map_of al k = Some w \<Longrightarrow> map fst (AList.update k v al) = map fst al"
  by (metis map_of_None_keys option.distinct(1) update_keys)

lemma parseShells_keys:
  "parseShells ts tbl = Inr tbl' \<Longrightarrow> map fst tbl' = map fst tbl @ map typ_Name ts"
proof (induction ts arbitrary: tbl)
  case Nil
  then show ?case by simp
next
  case (Cons ty rest)
  from Cons.prems have fresh: "typ_Name ty \<notin> set (map fst tbl)"
    by (auto simp: map_of_None_keys split: if_splits)
  from Cons.prems obtain v where "parseShells rest (AList.update (typ_Name ty) v tbl) = Inr tbl'"
    by (auto split: if_splits)
  from Cons.IH[OF this] fresh show ?case
    by (simp add: update_fresh_keys)
qed

lemma parseShells_fresh:
  "parseShells ts tbl = Inr tbl' \<Longrightarrow>
     distinct (map typ_Name ts) \<and> set (map typ_Name ts) \<inter> set (map fst tbl) = {}
     \<and> (\<forall>t \<in> set ts. namedKind (typ_Kind t))"
proof (induction ts arbitrary: tbl)
  case Nil
  then show ?case by simp
next
  case (Cons ty rest)
  from Cons.prems have fresh: "typ_Name ty \<notin> set (map fst tbl)"
    by (auto simp: map_of_None_keys split: if_splits)
  from Cons.prems have known: "namedKind (typ_Kind ty)"
    by (auto simp: namedKind_def split: if_splits)
  from Cons.prems obtain v where rec: "parseShells rest (AList.update (typ_Name ty) v tbl) = Inr tbl'"
    by (auto split: if_splits)
  from Cons.IH[OF rec] fresh known show ?case
    by (auto simp: dom_update)
qed

text \<open>Pass 1 has two errors only, and each names an offending entry.\<close>

lemma parseShells_error_kind:
  "parseShells ts tbl = Inl e \<Longrightarrow>
     (\<exists>n \<in> set (map typ_Name ts). e = DuplicateType n) \<or>
     (\<exists>t \<in> set ts. \<not> namedKind (typ_Kind t) \<and> e = UnknownTypeKind (typ_Kind t))"
proof (induction ts arbitrary: tbl)
  case Nil
  then show ?case by simp
next
  case (Cons ty rest)
  show ?case
  proof (cases "map_of tbl (typ_Name ty) \<noteq> None")
    case True
    with Cons.prems show ?thesis by auto
  next
    case fresh: False
    show ?thesis
    proof (cases "namedKind (typ_Kind ty)")
      case True
      with fresh Cons.prems obtain v where "parseShells rest (AList.update (typ_Name ty) v tbl) = Inl e"
        by (auto simp: namedKind_def split: if_splits)
      from Cons.IH[OF this] show ?thesis by auto
    next
      case False
      with fresh Cons.prems have "e = UnknownTypeKind (typ_Kind ty)"
        by (auto simp: namedKind_def split: if_splits)
      with False show ?thesis by auto
    qed
  qed
qed

lemma parseShells_no_duplicate_error:
  "parseShells ts tbl = Inl (DuplicateType n) \<Longrightarrow> distinct (map typ_Name ts)
     \<Longrightarrow> set (map typ_Name ts) \<inter> set (map fst tbl) = {} \<Longrightarrow> False"
proof (induction ts arbitrary: tbl)
  case Nil
  then show ?case by simp
next
  case (Cons ty rest)
  from Cons.prems(2,3) have fresh: "map_of tbl (typ_Name ty) = None"
    by (auto simp: map_of_None_keys)
  with Cons.prems(1) obtain v where rec: "parseShells rest (AList.update (typ_Name ty) v tbl) = Inl (DuplicateType n)"
    by (auto split: if_splits)
  from Cons.prems(2,3) have "set (map typ_Name rest) \<inter> set (map fst (AList.update (typ_Name ty) v tbl)) = {}"
    by (auto simp: dom_update)
  with Cons.IH[OF rec] Cons.prems(2) show ?case by simp
qed

lemma parsePopulate_keys:
  "parsePopulate ts tbl = Inr tbl' \<Longrightarrow> map fst tbl' = map fst tbl"
proof (induction ts arbitrary: tbl)
  case Nil
  then show ?case by simp
next
  case (Cons ty rest)
  then show ?case
    by (auto split: if_splits sum.splits option.splits gshell.splits simp: update_present_keys)
qed

lemma parseSchema_keys:
  assumes "parseSchema s = Inr tbl"
  shows "map fst tbl = map typ_Name (Types (Schema s))"
    and "distinct (map fst tbl)"
    and "\<forall>t \<in> set (Types (Schema s)). namedKind (typ_Kind t)"
proof -
  from assms obtain sh where sh: "parseShells (Types (Schema s)) [] = Inr sh"
    and pop: "parsePopulate (Types (Schema s)) sh = Inr tbl"
    by (auto simp: parseSchema_def split: sum.splits)
  from parseShells_keys[OF sh] parsePopulate_keys[OF pop]
  show keys: "map fst tbl = map typ_Name (Types (Schema s))" by simp
  from parseShells_fresh[OF sh] keys show "distinct (map fst tbl)" by simp
  from parseShells_fresh[OF sh] show "\<forall>t \<in> set (Types (Schema s)). namedKind (typ_Kind t)" by simp
qed

lemma parseSchema_pass1_error:
  assumes bad: "\<not> distinct (map typ_Name (Types (Schema s))) \<or> (\<exists>t \<in> set (Types (Schema s)). \<not> namedKind (typ_Kind t))"
  shows "\<exists>e. parseSchema s = Inl e \<and>
           ((\<exists>n \<in> set (map typ_Name (Types (Schema s))). e = DuplicateType n) \<or>
            (\<exists>t \<in> set (Types (Schema s)). \<not> namedKind (typ_Kind t) \<and> e = UnknownTypeKind (typ_Kind t)))"
proof (cases "parseShells (Types (Schema s)) []")
  case (Inl e)
  from parseShells_error_kind[OF Inl] Inl show ?thesis
    by (simp add: parseSchema_def)
next
  case (Inr sh)
  from parseShells_fresh[OF Inr] bad show ?thesis by auto
qed

text \<open>
  Claim C8, as amended. \<open>parseSchema\<close> fails whenever its input lists two type entries with
  the same name or a type whose kind is outside OBJECT, INPUT_OBJECT, SCALAR, UNION, ENUM,
  and the error is then the duplicate-type error of a listed name or the unknown-type-kind
  error of a listed unknown kind: the duplicate-type error when every kind is one of the
  five, the unknown-type-kind error when the names are distinct. Consequently the table of
  every successful run has pairwise distinct keys, which are the names of the input, and
  every kind of the input is one of the five.
\<close>

theorem parseSchema_duplicate_or_unknown_kind:
  "(\<not> distinct (map typ_Name (Types (Schema s))) \<or> (\<exists>t \<in> set (Types (Schema s)). \<not> namedKind (typ_Kind t))
      \<longrightarrow> (\<exists>e. parseSchema s = Inl e \<and>
             ((\<exists>n \<in> set (map typ_Name (Types (Schema s))). e = DuplicateType n) \<or>
              (\<exists>t \<in> set (Types (Schema s)). \<not> namedKind (typ_Kind t) \<and> e = UnknownTypeKind (typ_Kind t)))))
   \<and> (\<not> distinct (map typ_Name (Types (Schema s))) \<and> (\<forall>t \<in> set (Types (Schema s)). namedKind (typ_Kind t))
      \<longrightarrow> (\<exists>n \<in> set (map typ_Name (Types (Schema s))). parseSchema s = Inl (DuplicateType n)))
   \<and> (distinct (map typ_Name (Types (Schema s))) \<and> (\<exists>t \<in> set (Types (Schema s)). \<not> namedKind (typ_Kind t))
      \<longrightarrow> (\<exists>t \<in> set (Types (Schema s)). \<not> namedKind (typ_Kind t) \<and> parseSchema s = Inl (UnknownTypeKind (typ_Kind t))))
   \<and> (\<forall>tbl. parseSchema s = Inr tbl
      \<longrightarrow> distinct (map fst tbl) \<and> map fst tbl = map typ_Name (Types (Schema s))
          \<and> (\<forall>t \<in> set (Types (Schema s)). namedKind (typ_Kind t)))"
proof (intro conjI impI allI)
  assume "\<not> distinct (map typ_Name (Types (Schema s))) \<or> (\<exists>t \<in> set (Types (Schema s)). \<not> namedKind (typ_Kind t))"
  then show "\<exists>e. parseSchema s = Inl e \<and>
             ((\<exists>n \<in> set (map typ_Name (Types (Schema s))). e = DuplicateType n) \<or>
              (\<exists>t \<in> set (Types (Schema s)). \<not> namedKind (typ_Kind t) \<and> e = UnknownTypeKind (typ_Kind t)))"
    by (rule parseSchema_pass1_error)
next
  assume a: "\<not> distinct (map typ_Name (Types (Schema s))) \<and> (\<forall>t \<in> set (Types (Schema s)). namedKind (typ_Kind t))"
  then have "\<not> distinct (map typ_Name (Types (Schema s))) \<or> (\<exists>t \<in> set (Types (Schema s)). \<not> namedKind (typ_Kind t))"
    by simp
  from parseSchema_pass1_error[OF this] a
  show "\<exists>n \<in> set (map typ_Name (Types (Schema s))). parseSchema s = Inl (DuplicateType n)"
    by auto
next
  assume a: "distinct (map typ_Name (Types (Schema s))) \<and> (\<exists>t \<in> set (Types (Schema s)). \<not> namedKind (typ_Kind t))"
  then have bad: "\<not> distinct (map typ_Name (Types (Schema s))) \<or> (\<exists>t \<in> set (Types (Schema s)). \<not> namedKind (typ_Kind t))"
    by simp
  from parseSchema_pass1_error[OF bad] obtain e where e: "parseSchema s = Inl e"
    and kind: "(\<exists>n \<in> set (map typ_Name (Types (Schema s))). e = DuplicateType n) \<or>
            (\<exists>t \<in> set (Types (Schema s)). \<not> namedKind (typ_Kind t) \<and> e = UnknownTypeKind (typ_Kind t))"
    by blast
  have sh: "parseShells (Types (Schema s)) [] = Inl e"
  proof (cases "parseShells (Types (Schema s)) []")
    case (Inl e')
    with e show ?thesis by (simp add: parseSchema_def)
  next
    case (Inr sh)
    from parseShells_fresh[OF Inr] bad show ?thesis by auto
  qed
  have "\<not> (\<exists>n. e = DuplicateType n)"
  proof
    assume "\<exists>n. e = DuplicateType n"
    then obtain n where n: "e = DuplicateType n" ..
    from sh n a show False
      by (auto dest: parseShells_no_duplicate_error)
  qed
  with kind e show "\<exists>t \<in> set (Types (Schema s)). \<not> namedKind (typ_Kind t) \<and> parseSchema s = Inl (UnknownTypeKind (typ_Kind t))"
    by auto
next
  fix tbl assume "parseSchema s = Inr tbl"
  then show "distinct (map fst tbl)" by (rule parseSchema_keys)
next
  fix tbl assume "parseSchema s = Inr tbl"
  then show "map fst tbl = map typ_Name (Types (Schema s))" by (rule parseSchema_keys)
next
  fix tbl assume "parseSchema s = Inr tbl"
  then show "\<forall>t \<in> set (Types (Schema s)). namedKind (typ_Kind t)" by (rule parseSchema_keys)
qed

theorem parseSchema_duplicate_or_unknown_kind_witness:
  "parseSchema repeatedName = Inl (DuplicateType ''A'')
   \<and> parseSchema unknownKind = Inl (UnknownTypeKind ''INTERFACE'')
   \<and> (\<exists>tbl. parseSchema cyclicFoo = Inr tbl \<and> map fst tbl = [''string'', ''Foo''])"
proof -
  have dup: "\<not> distinct (map typ_Name (Types (Schema repeatedName)))
      \<and> (\<forall>t \<in> set (Types (Schema repeatedName)). namedKind (typ_Kind t))"
    by (simp add: repeatedName_def mkSchema_def mkType_def namedKind_def)
  have unk: "distinct (map typ_Name (Types (Schema unknownKind)))
      \<and> (\<exists>t \<in> set (Types (Schema unknownKind)). \<not> namedKind (typ_Kind t))"
    by (simp add: unknownKind_def mkSchema_def mkType_def namedKind_def)
  have ok: "\<exists>tbl. parseSchema cyclicFoo = Inr tbl"
    by (simp add: parseSchema_def parseInputFields_def cyclicFoo_def mkSchema_def mkType_def
        mkField_def named_def listOf_def namedKind_def)
  from parseSchema_duplicate_or_unknown_kind [of repeatedName] dup
  have "parseSchema repeatedName = Inl (DuplicateType ''A'')"
    by (auto simp: repeatedName_def mkSchema_def mkType_def)
  moreover from parseSchema_duplicate_or_unknown_kind [of unknownKind] unk
  have "parseSchema unknownKind = Inl (UnknownTypeKind ''INTERFACE'')"
    by (auto simp: unknownKind_def mkSchema_def mkType_def namedKind_def)
  moreover from parseSchema_duplicate_or_unknown_kind [of cyclicFoo] ok
  have "\<exists>tbl. parseSchema cyclicFoo = Inr tbl \<and> map fst tbl = [''string'', ''Foo'']"
    by (auto simp: cyclicFoo_def mkSchema_def mkType_def)
  ultimately show ?thesis by blast
qed

text \<open>
  Claim C8 as stated fails: the input lists two entries named \<open>A\<close>, and \<open>parseSchema\<close>
  returns the unknown-type-kind error of the first one, not a duplicate-type error.
\<close>

theorem parseSchema_duplicate_counterexample:
  "\<not> distinct (map typ_Name (Types (Schema twiceUnknown)))
   \<and> parseSchema twiceUnknown = Inl (UnknownTypeKind ''INTERFACE'')"
  by (simp add: parseSchema_def twiceUnknown_def mkSchema_def mkType_def)

subsection \<open>The shells of the table\<close>

lemma skeleton_keys: "map fst (skeleton tbl) = map fst tbl"
  by (induction tbl) (auto simp: skeleton_def)

lemma skeleton_map_of: "map_of (skeleton tbl) n = map_option kindOf (map_of tbl n)"
  by (induction tbl) (auto simp: skeleton_def)

lemma skeleton_update_fresh:
  "k \<notin> set (map fst tbl) \<Longrightarrow> skeleton (AList.update k v tbl) = skeleton tbl @ [(k, kindOf v)]"
  by (induction tbl) (auto simp: skeleton_def)

lemma skeleton_update_same:
  "map_of tbl k = Some w \<Longrightarrow> kindOf v = kindOf w \<Longrightarrow> skeleton (AList.update k v tbl) = skeleton tbl"
  by (induction tbl) (auto simp: skeleton_def)

lemma parseShells_succeeds:
  "distinct (map typ_Name ts) \<Longrightarrow> set (map typ_Name ts) \<inter> set (map fst tbl) = {}
     \<Longrightarrow> \<forall>t \<in> set ts. namedKind (typ_Kind t)
     \<Longrightarrow> \<exists>tbl'. parseShells ts tbl = Inr tbl'
           \<and> skeleton tbl' = skeleton tbl @ map (\<lambda>t. (typ_Name t, typ_Kind t)) ts"
proof (induction ts arbitrary: tbl)
  case Nil
  then show ?case by simp
next
  case (Cons ty rest)
  from Cons.prems have fresh: "typ_Name ty \<notin> set (map fst tbl)" by auto
  then have none: "map_of tbl (typ_Name ty) = None" by (simp add: map_of_None_keys)
  from Cons.prems have known: "namedKind (typ_Kind ty)" by simp
  define v where "v =
    (if typ_Kind ty = ''OBJECT'' then GObject (typ_Name ty) []
     else if typ_Kind ty = ''INPUT_OBJECT'' then GInputObject (typ_Name ty) []
     else if typ_Kind ty = ''SCALAR'' then GScalar (typ_Name ty)
     else if typ_Kind ty = ''UNION'' then GUnion (typ_Name ty) []
     else GEnum (typ_Name ty) [] [])"
  from known have kv: "kindOf v = typ_Kind ty"
    by (auto simp: v_def namedKind_def)
  from none known have step: "parseShells (ty # rest) tbl = parseShells rest (AList.update (typ_Name ty) v tbl)"
    by (auto simp: v_def namedKind_def)
  from Cons.prems fresh have "set (map typ_Name rest) \<inter> set (map fst (AList.update (typ_Name ty) v tbl)) = {}"
    by (auto simp: dom_update)
  with Cons.IH[of "AList.update (typ_Name ty) v tbl"] Cons.prems
  obtain tbl' where r: "parseShells rest (AList.update (typ_Name ty) v tbl) = Inr tbl'"
    and sk: "skeleton tbl' = skeleton (AList.update (typ_Name ty) v tbl) @ map (\<lambda>t. (typ_Name t, typ_Kind t)) rest"
    by auto
  from sk fresh kv have "skeleton tbl' = skeleton tbl @ map (\<lambda>t. (typ_Name t, typ_Kind t)) (ty # rest)"
    by (simp add: skeleton_update_fresh)
  with r step show ?case by simp
qed

lemma skeleton_declared:
  assumes sk: "skeleton tbl = map (\<lambda>t. (typ_Name t, typ_Kind t)) ts"
    and d: "distinct (map typ_Name ts)"
    and t: "t \<in> set ts"
  shows "map_of (skeleton tbl) (typ_Name t) = Some (typ_Kind t)"
proof -
  from d have "distinct (map fst (map (\<lambda>t. (typ_Name t, typ_Kind t)) ts))"
    by (simp add: comp_def)
  moreover from t have "(typ_Name t, typ_Kind t) \<in> set (map (\<lambda>t. (typ_Name t, typ_Kind t)) ts)"
    by auto
  ultimately show ?thesis using sk by simp
qed

lemma parsePopulate_object:
  "typ_Kind ty = ''OBJECT'' \<Longrightarrow> parseObjectFields (typ_Name ty) (typ_Fields ty) tbl [] = Inr fs
     \<Longrightarrow> map_of tbl (typ_Name ty) = Some (GObject n old)
     \<Longrightarrow> parsePopulate (ty # rest) tbl = parsePopulate rest (AList.update (typ_Name ty) (GObject n fs) tbl)"
  by simp

lemma parsePopulate_input_object:
  "typ_Kind ty = ''INPUT_OBJECT'' \<Longrightarrow> parseInputFields (typ_InputFields ty) tbl = Inr parsed
     \<Longrightarrow> map_of tbl (typ_Name ty) = Some (GInputObject n old)
     \<Longrightarrow> parsePopulate (ty # rest) tbl = parsePopulate rest (AList.update (typ_Name ty) (GInputObject n parsed) tbl)"
  by simp

lemma parsePopulate_union:
  "typ_Kind ty = ''UNION'' \<Longrightarrow> parsePossibleTypes (typ_Name ty) (typ_PossibleTypes ty) tbl [] = Inr us
     \<Longrightarrow> map_of tbl (typ_Name ty) = Some (GUnion n old)
     \<Longrightarrow> parsePopulate (ty # rest) tbl = parsePopulate rest (AList.update (typ_Name ty) (GUnion n us) tbl)"
  by simp

lemma parsePopulate_enum:
  "typ_Kind ty = ''ENUM'' \<Longrightarrow> map_of tbl (typ_Name ty) = Some (GEnum n vs rm)
     \<Longrightarrow> parsePopulate (ty # rest) tbl = parsePopulate rest (AList.update (typ_Name ty)
           (GEnum n (typ_EnumValues ty) (fold (\<lambda>v m. AList.update v v m) (typ_EnumValues ty) [])) tbl)"
  by simp

lemma parsePopulate_scalar:
  "typ_Kind ty = ''SCALAR'' \<Longrightarrow> parsePopulate (ty # rest) tbl = parsePopulate rest tbl"
  by simp

lemma kindOf_object: "kindOf sh = ''OBJECT'' \<Longrightarrow> \<exists>n fs. sh = GObject n fs"
  by (cases sh) simp_all

lemma kindOf_input_object: "kindOf sh = ''INPUT_OBJECT'' \<Longrightarrow> \<exists>n fs. sh = GInputObject n fs"
  by (cases sh) simp_all

lemma kindOf_union: "kindOf sh = ''UNION'' \<Longrightarrow> \<exists>n ts. sh = GUnion n ts"
  by (cases sh) simp_all

lemma kindOf_enum: "kindOf sh = ''ENUM'' \<Longrightarrow> \<exists>n vs rm. sh = GEnum n vs rm"
  by (cases sh) simp_all

lemma skeleton_names:
  "skeleton tbl = map (\<lambda>t. (typ_Name t, typ_Kind t)) ts \<Longrightarrow> map fst tbl = map typ_Name ts"
proof -
  assume "skeleton tbl = map (\<lambda>t. (typ_Name t, typ_Kind t)) ts"
  then have "map fst (skeleton tbl) = map fst (map (\<lambda>t. (typ_Name t, typ_Kind t)) ts)" by simp
  then show ?thesis by (simp add: skeleton_keys comp_def)
qed

lemma skeleton_lookup:
  assumes sk: "skeleton tbl = map (\<lambda>t. (typ_Name t, typ_Kind t)) ts"
    and d: "distinct (map typ_Name ts)"
    and t: "t \<in> set ts"
  shows "\<exists>sh. map_of tbl (typ_Name t) = Some sh \<and> kindOf sh = typ_Kind t"
proof -
  from skeleton_declared[OF sk d t] have "map_option kindOf (map_of tbl (typ_Name t)) = Some (typ_Kind t)"
    by (simp add: skeleton_map_of)
  then show ?thesis by (cases "map_of tbl (typ_Name t)") simp_all
qed


subsection \<open>Arguments and input fields\<close>

lemma lookupType_underWrappers:
  "lookupType t tbl =
     (case underWrappers t of
        None \<Rightarrow> Inl MalformedTyperef
      | Some r \<Rightarrow> if namedKind (ref_Kind r) then Inr r else Inl (UnknownTypeKind (ref_Kind r)))"
  by (induction t tbl rule: lookupType.induct) (auto simp: namedKind_def)

lemma lookupType_found:
  "lookupType t tbl = Inr r \<Longrightarrow> underWrappers t = Some r \<and> namedKind (ref_Kind r)"
  by (simp add: lookupType_underWrappers split: option.splits if_splits)

lemma lookupType_error:
  "lookupType t tbl = Inl e \<Longrightarrow> malformedReference t"
  by (simp add: lookupType_underWrappers malformedReference_def split: option.splits if_splits)

lemma underWrappers_innermost:
  "underWrappers t = Some r \<Longrightarrow> ref_OfType r = None \<Longrightarrow> innermostKind t = Some (ref_Kind r)"
proof (induction t rule: underWrappers.induct)
  case 1
  then show ?case by simp
next
  case (2 k n ot)
  show ?case
  proof (cases "k = ''LIST'' \<or> k = ''NON_NULL''")
    case True
    with "2.prems" have u: "underWrappers ot = Some r" by simp
    then obtain t' where ot: "ot = Some t'" by (cases ot) simp_all
    from "2.IH"[OF True u "2.prems"(2)] ot show ?thesis
      by (simp add: innermostKind_def)
  next
    case False
    with "2.prems" have "r = TypeRef k n ot" and "ot = None" by auto
    then show ?thesis by (simp add: innermostKind_def)
  qed
qed

lemma acceptedInput_innermost:
  assumes "acceptedInput a" and "plainReference (inp_Type a)"
  shows "\<exists>k. innermostKind (inp_Type a) = Some k \<and> inputKind k"
proof -
  from assms(1) obtain r where r: "underWrappers (inp_Type a) = Some r" and k: "inputKind (ref_Kind r)"
    by (auto simp: acceptedInput_def split: option.splits)
  from assms(2) r have "ref_OfType r = None" by (simp add: plainReference_def)
  from underWrappers_innermost[OF r this] k show ?thesis by simp
qed

lemma parseInputFieldsLoop_accepted:
  "parseInputFieldsLoop src tbl acc = Inr r \<Longrightarrow> \<forall>a \<in> set src. acceptedInput a"
proof (induction src arbitrary: acc)
  case Nil
  then show ?case by simp
next
  case (Cons a rest)
  from Cons.prems obtain rt where rt: "lookupType (inp_Type a) tbl = Inr rt"
    and kind: "ref_Kind rt = ''INPUT_OBJECT'' \<or> ref_Kind rt = ''SCALAR'' \<or> ref_Kind rt = ''ENUM''"
    by (auto split: sum.splits if_splits)
  from lookupType_found[OF rt] kind have a: "acceptedInput a"
    by (simp add: acceptedInput_def inputKind_def)
  from Cons.prems rt kind obtain acc' where "parseInputFieldsLoop rest tbl acc' = Inr r"
    by (auto split: sum.splits if_splits)
  from Cons.IH[OF this] a show ?case by simp
qed

lemma parseInputFieldsLoop_panic:
  "parseInputFieldsLoop src tbl acc = Inl e \<Longrightarrow> isPanic e
     \<Longrightarrow> \<exists>a \<in> set src. malformedReference (inp_Type a)"
proof (induction src arbitrary: acc)
  case Nil
  then show ?case by simp
next
  case (Cons a rest)
  show ?case
  proof (cases "lookupType (inp_Type a) tbl")
    case (Inl err)
    from lookupType_error[OF this] show ?thesis by simp
  next
    case (Inr rt)
    show ?thesis
    proof (cases "ref_Kind rt = ''INPUT_OBJECT'' \<or> ref_Kind rt = ''SCALAR'' \<or> ref_Kind rt = ''ENUM''")
      case False
      with Inr Cons.prems show ?thesis by auto
    next
      case True
      show ?thesis
      proof (cases "lookupTypeRef (inp_Type a) tbl")
        case (Inl err)
        with Inr True Cons.prems show ?thesis by auto
      next
        case g: (Inr inputType)
        with Inr True Cons.prems
        have "parseInputFieldsLoop rest tbl (AList.update (inp_Name a) inputType acc) = Inl e"
          by auto
        from Cons.IH[OF this Cons.prems(2)] show ?thesis by simp
      qed
    qed
  qed
qed

lemma isPanic_wrap_FieldInput: "isPanic (wrap (FieldInput n) err) = isPanic err"
  by (simp add: wrap_def)

lemma isPanic_wrap_TypError: "isPanic (wrap (TypError n) err) = isPanic err"
  by (simp add: wrap_def)

lemma parseObjectFields_panic:
  "parseObjectFields tn fs tbl acc = Inl e \<Longrightarrow> isPanic e
     \<Longrightarrow> \<exists>f \<in> set fs. \<exists>a \<in> set (fld_Args f). malformedReference (inp_Type a)"
proof (induction fs arbitrary: acc)
  case Nil
  then show ?case by simp
next
  case (Cons f rest)
  show ?case
  proof (cases "lookupTypeRef (fld_Type f) tbl")
    case (Inl err)
    with Cons.prems show ?thesis by auto
  next
    case g: (Inr fieldTyp)
    show ?thesis
    proof (cases "parseInputFields (fld_Args f) tbl")
      case (Inl err)
      with g Cons.prems(1) have "e = wrap (FieldInput (fld_Name f)) err" by simp
      with Cons.prems(2) have "isPanic err" by (simp add: isPanic_wrap_FieldInput)
      from parseInputFieldsLoop_panic[OF Inl[unfolded parseInputFields_def] this] show ?thesis
        by simp
    next
      case (Inr parsed)
      with g Cons.prems(1) obtain acc' where "parseObjectFields tn rest tbl acc' = Inl e"
        by auto
      from Cons.IH[OF this Cons.prems(2)] show ?thesis by simp
    qed
  qed
qed

lemma parsePossibleTypes_panic:
  "parsePossibleTypes tn os tbl acc = Inl e \<Longrightarrow> isPanic e
     \<Longrightarrow> \<exists>other \<in> set os. ref_Kind other = ''OBJECT''
           \<and> map_of (skeleton tbl) (ref_Name other) \<noteq> Some ''OBJECT''"
proof (induction os arbitrary: acc)
  case Nil
  then show ?case by simp
next
  case (Cons other rest)
  show ?case
  proof (cases "ref_Kind other = ''OBJECT''")
    case False
    with Cons.prems show ?thesis by auto
  next
    case kind: True
    show ?thesis
    proof (cases "map_of (skeleton tbl) (ref_Name other) = Some ''OBJECT''")
      case False
      with kind show ?thesis by simp
    next
      case True
      then obtain sh where sh: "map_of tbl (ref_Name other) = Some sh" and "kindOf sh = ''OBJECT''"
        by (auto simp: skeleton_map_of)
      from kindOf_object[OF this(2)] obtain n fs where "sh = GObject n fs" by blast
      with sh kind Cons.prems(1) obtain acc' where "parsePossibleTypes tn rest tbl acc' = Inl e"
        by auto
      from Cons.IH[OF this Cons.prems(2)] show ?thesis by simp
    qed
  qed
qed

lemma skeleton_dangling:
  assumes sk: "skeleton tbl = map (\<lambda>t. (typ_Name t, typ_Kind t)) ts0"
    and d: "distinct (map typ_Name ts0)"
    and k: "ref_Kind other = ''OBJECT''"
    and m: "map_of (skeleton tbl) (ref_Name other) \<noteq> Some ''OBJECT''"
  shows "danglingMember ts0 other"
proof -
  have "\<not> (\<exists>t \<in> set ts0. typ_Name t = ref_Name other \<and> typ_Kind t = ''OBJECT'')"
  proof
    assume "\<exists>t \<in> set ts0. typ_Name t = ref_Name other \<and> typ_Kind t = ''OBJECT''"
    then obtain t where t: "t \<in> set ts0" and n: "typ_Name t = ref_Name other"
      and kt: "typ_Kind t = ''OBJECT''" by blast
    from skeleton_declared[OF sk d t] n kt m show False by simp
  qed
  with k show ?thesis by (simp add: danglingMember_def)
qed

lemma parsePopulate_panic:
  assumes d: "distinct (map typ_Name ts0)"
  shows "skeleton tbl = map (\<lambda>t. (typ_Name t, typ_Kind t)) ts0 \<Longrightarrow> set ts \<subseteq> set ts0
     \<Longrightarrow> parsePopulate ts tbl = Inl e \<Longrightarrow> isPanic e \<Longrightarrow> \<exists>t \<in> set ts. mayPanicAt ts0 t"
proof (induction ts arbitrary: tbl)
  case Nil
  then show ?case by simp
next
  case (Cons ty rest)
  note sk = Cons.prems(1)
  note run = Cons.prems(3)
  note pan = Cons.prems(4)
  from Cons.prems(2) have ty: "ty \<in> set ts0" and sub: "set rest \<subseteq> set ts0" by simp_all
  from skeleton_lookup[OF sk d ty]
  obtain sh where sh: "map_of tbl (typ_Name ty) = Some sh" and ksh: "kindOf sh = typ_Kind ty"
    by blast
  have later: "\<exists>t \<in> set (ty # rest). mayPanicAt ts0 t"
    if kv: "kindOf v = typ_Kind ty" and r: "parsePopulate rest (AList.update (typ_Name ty) v tbl) = Inl e" for v
  proof -
    from kv ksh have "kindOf v = kindOf sh" by simp
    from skeleton_update_same[OF sh this] sk
    have "skeleton (AList.update (typ_Name ty) v tbl) = map (\<lambda>t. (typ_Name t, typ_Kind t)) ts0"
      by simp
    from Cons.IH[OF this sub r pan] show ?thesis by simp
  qed
  consider (obj) "typ_Kind ty = ''OBJECT''" | (inp) "typ_Kind ty = ''INPUT_OBJECT''"
    | (uni) "typ_Kind ty = ''UNION''" | (enum) "typ_Kind ty = ''ENUM''" | (sca) "typ_Kind ty = ''SCALAR''"
    | (other) "\<not> namedKind (typ_Kind ty)"
    unfolding namedKind_def by blast
  then show ?case
  proof cases
    case obj
    from obj ksh have "kindOf sh = ''OBJECT''" by simp
    from kindOf_object[OF this] obtain n old where s: "sh = GObject n old" by blast
    show ?thesis
    proof (cases "parseObjectFields (typ_Name ty) (typ_Fields ty) tbl []")
      case (Inl err)
      with obj run have "err = e" by simp
      with Inl have "parseObjectFields (typ_Name ty) (typ_Fields ty) tbl [] = Inl e" by simp
      from parseObjectFields_panic[OF this pan] obj have "mayPanicAt ts0 ty"
        by (simp add: mayPanicAt_def)
      then show ?thesis by simp
    next
      case (Inr fs)
      from sh s have "map_of tbl (typ_Name ty) = Some (GObject n old)" by simp
      from parsePopulate_object[OF obj Inr this, of rest] run
      have r: "parsePopulate rest (AList.update (typ_Name ty) (GObject n fs) tbl) = Inl e" by simp
      have "kindOf (GObject n fs) = typ_Kind ty" using obj by simp
      from later[OF this r] show ?thesis .
    qed
  next
    case inp
    from inp ksh have "kindOf sh = ''INPUT_OBJECT''" by simp
    from kindOf_input_object[OF this] obtain n old where s: "sh = GInputObject n old" by blast
    show ?thesis
    proof (cases "parseInputFields (typ_InputFields ty) tbl")
      case (Inl err)
      with inp run have "e = wrap (TypError (typ_Name ty)) err" by simp
      with pan have "isPanic err" by (simp add: isPanic_wrap_TypError)
      from parseInputFieldsLoop_panic[OF Inl[unfolded parseInputFields_def] this] inp
      have "mayPanicAt ts0 ty" by (simp add: mayPanicAt_def)
      then show ?thesis by simp
    next
      case (Inr parsed)
      from sh s have "map_of tbl (typ_Name ty) = Some (GInputObject n old)" by simp
      from parsePopulate_input_object[OF inp Inr this, of rest] run
      have r: "parsePopulate rest (AList.update (typ_Name ty) (GInputObject n parsed) tbl) = Inl e" by simp
      have "kindOf (GInputObject n parsed) = typ_Kind ty" using inp by simp
      from later[OF this r] show ?thesis .
    qed
  next
    case uni
    from uni ksh have "kindOf sh = ''UNION''" by simp
    from kindOf_union[OF this] obtain n old where s: "sh = GUnion n old" by blast
    show ?thesis
    proof (cases "parsePossibleTypes (typ_Name ty) (typ_PossibleTypes ty) tbl []")
      case (Inl err)
      with uni run have "err = e" by simp
      with Inl have "parsePossibleTypes (typ_Name ty) (typ_PossibleTypes ty) tbl [] = Inl e" by simp
      from parsePossibleTypes_panic[OF this pan]
      obtain other where o: "other \<in> set (typ_PossibleTypes ty)" and k: "ref_Kind other = ''OBJECT''"
        and m: "map_of (skeleton tbl) (ref_Name other) \<noteq> Some ''OBJECT''" by blast
      from skeleton_dangling[OF sk d k m] o uni have "mayPanicAt ts0 ty"
        by (auto simp: mayPanicAt_def)
      then show ?thesis by simp
    next
      case (Inr us)
      from sh s have "map_of tbl (typ_Name ty) = Some (GUnion n old)" by simp
      from parsePopulate_union[OF uni Inr this, of rest] run
      have r: "parsePopulate rest (AList.update (typ_Name ty) (GUnion n us) tbl) = Inl e" by simp
      have "kindOf (GUnion n us) = typ_Kind ty" using uni by simp
      from later[OF this r] show ?thesis .
    qed
  next
    case enum
    from enum ksh have "kindOf sh = ''ENUM''" by simp
    from kindOf_enum[OF this] obtain n vs rm where s: "sh = GEnum n vs rm" by blast
    from sh s have "map_of tbl (typ_Name ty) = Some (GEnum n vs rm)" by simp
    from parsePopulate_enum[OF enum this, of rest] run
    have r: "parsePopulate rest (AList.update (typ_Name ty)
        (GEnum n (typ_EnumValues ty) (fold (\<lambda>v m. AList.update v v m) (typ_EnumValues ty) [])) tbl) = Inl e"
      by simp
    have "kindOf (GEnum n (typ_EnumValues ty) (fold (\<lambda>v m. AList.update v v m) (typ_EnumValues ty) [])) = typ_Kind ty"
      using enum by simp
    from later[OF this r] show ?thesis .
  next
    case sca
    from parsePopulate_scalar[OF sca, of rest tbl] run have "parsePopulate rest tbl = Inl e" by simp
    from Cons.IH[OF sk sub this pan] show ?thesis by simp
  next
    case other
    then have "parsePopulate (ty # rest) tbl = Inl (UnknownTypeKind (typ_Kind ty))"
      by (simp add: namedKind_def)
    with run pan show ?thesis by simp
  qed
qed

lemma parseSchema_panic:
  assumes run: "parseSchema s = Inl e" and pan: "isPanic e"
  shows "mayPanic s"
proof (cases "parseShells (Types (Schema s)) []")
  case (Inl err)
  with run have "parseShells (Types (Schema s)) [] = Inl e" by (simp add: parseSchema_def)
  from parseShells_error_kind[OF this] pan show ?thesis by auto
next
  case (Inr sh)
  from parseShells_fresh[OF Inr] have d: "distinct (map typ_Name (Types (Schema s)))"
    and k: "\<forall>t \<in> set (Types (Schema s)). namedKind (typ_Kind t)" by simp_all
  from parseShells_succeeds[of "Types (Schema s)" "[]"] d k Inr
  have sk: "skeleton sh = map (\<lambda>t. (typ_Name t, typ_Kind t)) (Types (Schema s))"
    by (auto simp: skeleton_def)
  from Inr run have "parsePopulate (Types (Schema s)) sh = Inl e" by (simp add: parseSchema_def)
  from parsePopulate_panic[OF d sk _ this pan] obtain t
    where "t \<in> set (Types (Schema s))" "mayPanicAt (Types (Schema s)) t" by auto
  then show ?thesis unfolding mayPanic_def by blast
qed

text \<open>The innermost reference is the one \<open>getRootType\<close> returns.\<close>

lemma getRootType_innermost: "getRootType (Some t) = Inr (innermost t)"
  by (induction t rule: innermost.induct) simp_all

lemma underWrappers_none:
  "underWrappers t = None
     \<Longrightarrow> innermostKind t = None \<or> innermostKind t = Some ''LIST'' \<or> innermostKind t = Some ''NON_NULL''"
proof (induction t rule: underWrappers.induct)
  case 1
  then show ?case by (simp add: innermostKind_def)
next
  case (2 k n ot)
  from "2.prems" have w: "k = ''LIST'' \<or> k = ''NON_NULL''" and u: "underWrappers ot = None"
    by (simp_all split: if_splits)
  show ?case
  proof (cases ot)
    case None
    with w show ?thesis by (auto simp: innermostKind_def)
  next
    case (Some t')
    from "2.IH"[OF w u] Some show ?thesis by (simp add: innermostKind_def)
  qed
qed

lemma plain_rejected:
  assumes "plainReference (inp_Type a)"
    and "innermostKind (inp_Type a) = Some ''OBJECT'' \<or> innermostKind (inp_Type a) = Some ''UNION''"
  shows "rejectedInput a"
proof (cases "underWrappers (inp_Type a)")
  case None
  from underWrappers_none[OF this] assms(2) show ?thesis by auto
next
  case (Some r)
  with assms(1) have "ref_OfType r = None" by (simp add: plainReference_def)
  from underWrappers_innermost[OF Some this] assms(2) Some show ?thesis
    by (auto simp: rejectedInput_def)
qed

lemma parseObjectFields_accepted:
  "parseObjectFields tn fs tbl acc = Inr r \<Longrightarrow> \<forall>f \<in> set fs. \<forall>a \<in> set (fld_Args f). acceptedInput a"
proof (induction fs arbitrary: acc)
  case Nil
  then show ?case by simp
next
  case (Cons f rest)
  from Cons.prems obtain parsed where "parseInputFields (fld_Args f) tbl = Inr parsed"
    by (auto split: sum.splits)
  then have f: "\<forall>a \<in> set (fld_Args f). acceptedInput a"
    unfolding parseInputFields_def by (rule parseInputFieldsLoop_accepted)
  from Cons.prems obtain acc' where "parseObjectFields tn rest tbl acc' = Inr r"
    by (auto split: sum.splits)
  from Cons.IH[OF this] f show ?case by simp
qed

lemma parsePopulate_accepted:
  "parsePopulate ts tbl = Inr tbl' \<Longrightarrow>
     \<forall>t \<in> set ts. (typ_Kind t = ''OBJECT'' \<longrightarrow> (\<forall>f \<in> set (typ_Fields t). \<forall>a \<in> set (fld_Args f). acceptedInput a))
        \<and> (typ_Kind t = ''INPUT_OBJECT'' \<longrightarrow> (\<forall>a \<in> set (typ_InputFields t). acceptedInput a))"
proof (induction ts arbitrary: tbl)
  case Nil
  then show ?case by simp
next
  case (Cons ty rest)
  from Cons.prems obtain tbl1 where rec: "parsePopulate rest tbl1 = Inr tbl'"
    by (auto split: if_splits sum.splits option.splits gshell.splits)
  have obj: "typ_Kind ty = ''OBJECT'' \<longrightarrow> (\<forall>f \<in> set (typ_Fields ty). \<forall>a \<in> set (fld_Args f). acceptedInput a)"
  proof
    assume k: "typ_Kind ty = ''OBJECT''"
    with Cons.prems obtain fs where "parseObjectFields (typ_Name ty) (typ_Fields ty) tbl [] = Inr fs"
      by (auto split: sum.splits)
    then show "\<forall>f \<in> set (typ_Fields ty). \<forall>a \<in> set (fld_Args f). acceptedInput a"
      by (rule parseObjectFields_accepted)
  qed
  have inp: "typ_Kind ty = ''INPUT_OBJECT'' \<longrightarrow> (\<forall>a \<in> set (typ_InputFields ty). acceptedInput a)"
  proof
    assume k: "typ_Kind ty = ''INPUT_OBJECT''"
    with Cons.prems obtain parsed where "parseInputFields (typ_InputFields ty) tbl = Inr parsed"
      by (auto split: sum.splits)
    then show "\<forall>a \<in> set (typ_InputFields ty). acceptedInput a"
      unfolding parseInputFields_def by (rule parseInputFieldsLoop_accepted)
  qed
  from Cons.IH[OF rec] obj inp show ?case by simp
qed

lemma parseSchema_accepted:
  assumes "parseSchema s = Inr tbl"
  shows "\<forall>a \<in> set (checkedInputs s). acceptedInput a"
proof -
  from assms obtain sh where "parsePopulate (Types (Schema s)) sh = Inr tbl"
    by (auto simp: parseSchema_def split: sum.splits)
  from parsePopulate_accepted[OF this] show ?thesis
    by (auto simp: checkedInputs_def split: if_splits)
qed

lemma accepted_not_rejected: "acceptedInput a \<Longrightarrow> \<not> rejectedInput a"
  by (auto simp: acceptedInput_def rejectedInput_def inputKind_def split: option.splits)

lemma ConvertVersionedSchemas_parse_error:
  assumes "intersectVersions mss schemas (sortedKeys schemas) = Inr byName"
    and "mss (map snd byName) UnionMode = Inr merged"
    and "parseSchema merged = Inl e"
  shows "ConvertVersionedSchemas mss schemas = Inl e"
  using assms by (simp add: ConvertVersionedSchemas_def mergeAndParse_def)

text \<open>
  Claim C10, as amended. When \<open>parseSchema\<close> succeeds, every argument of a field of an OBJECT
  type and every input field of an INPUT_OBJECT type has, under its LIST and NON_NULL
  wrappers, a reference of kind INPUT_OBJECT, SCALAR or ENUM; that reference is the
  innermost one when the reference is plain. An argument or input field that has there a
  reference of kind OBJECT or UNION (a plain reference whose innermost kind is OBJECT or
  UNION is one) makes \<open>parseSchema\<close> fail, and with it every merge whose union of the
  service schemas is this schema; what is returned is an error, and no panic is raised, on
  every schema without a malformed reference and without a dangling union member.
\<close>

theorem parseSchema_input_kinds:
  "(\<forall>tbl. parseSchema s = Inr tbl \<longrightarrow>
      (\<forall>a \<in> set (checkedInputs s). acceptedInput a
          \<and> (plainReference (inp_Type a) \<longrightarrow> (\<exists>k. innermostKind (inp_Type a) = Some k \<and> inputKind k))))
   \<and> ((\<exists>a \<in> set (checkedInputs s).
          rejectedInput a
          \<or> (plainReference (inp_Type a)
              \<and> (innermostKind (inp_Type a) = Some ''OBJECT'' \<or> innermostKind (inp_Type a) = Some ''UNION'')))
        \<longrightarrow> (\<exists>e. parseSchema s = Inl e \<and> (\<not> mayPanic s \<longrightarrow> \<not> isPanic e)
               \<and> (\<forall>mss schemas byName.
                     intersectVersions mss schemas (sortedKeys schemas) = Inr byName
                     \<and> mss (map snd byName) UnionMode = Inr s
                     \<longrightarrow> ConvertVersionedSchemas mss schemas = Inl e)))"
proof -
  have ok: "\<forall>a \<in> set (checkedInputs s). acceptedInput a
          \<and> (plainReference (inp_Type a) \<longrightarrow> (\<exists>k. innermostKind (inp_Type a) = Some k \<and> inputKind k))"
    if "parseSchema s = Inr tbl" for tbl
    using parseSchema_accepted[OF that] acceptedInput_innermost by blast
  have bad: "\<exists>e. parseSchema s = Inl e \<and> (\<not> mayPanic s \<longrightarrow> \<not> isPanic e)
               \<and> (\<forall>mss schemas byName.
                     intersectVersions mss schemas (sortedKeys schemas) = Inr byName
                     \<and> mss (map snd byName) UnionMode = Inr s
                     \<longrightarrow> ConvertVersionedSchemas mss schemas = Inl e)"
    if h: "\<exists>a \<in> set (checkedInputs s).
          rejectedInput a
          \<or> (plainReference (inp_Type a)
              \<and> (innermostKind (inp_Type a) = Some ''OBJECT'' \<or> innermostKind (inp_Type a) = Some ''UNION''))"
  proof -
    from h plain_rejected obtain a where a: "a \<in> set (checkedInputs s)" and r: "rejectedInput a"
      by blast
    show ?thesis
    proof (cases "parseSchema s")
      case (Inl e)
      from parseSchema_panic[OF Inl] have "\<not> mayPanic s \<longrightarrow> \<not> isPanic e" by blast
      moreover have "\<forall>mss schemas byName.
                     intersectVersions mss schemas (sortedKeys schemas) = Inr byName
                     \<and> mss (map snd byName) UnionMode = Inr s
                     \<longrightarrow> ConvertVersionedSchemas mss schemas = Inl e"
        using ConvertVersionedSchemas_parse_error Inl by blast
      ultimately show ?thesis using Inl by blast
    next
      case (Inr tbl)
      from parseSchema_accepted[OF Inr] a r accepted_not_rejected show ?thesis by blast
    qed
  qed
  from ok bad show ?thesis by blast
qed

theorem parseSchema_input_kinds_witness:
  "checkedInputs objectArgument = [mkInput ''like'' (listOf (named ''OBJECT'' ''Foo''))]
   \<and> plainReference (listOf (named ''OBJECT'' ''Foo''))
   \<and> innermostKind (listOf (named ''OBJECT'' ''Foo'')) = Some ''OBJECT''
   \<and> \<not> mayPanic objectArgument
   \<and> (\<exists>e. parseSchema objectArgument = Inl e \<and> \<not> isPanic e
          \<and> ConvertVersionedSchemas mergeSchemaSlice [(''A'', [('''', objectArgument)])] = Inl e)
   \<and> \<not> isl (parseSchema serviceB) \<and> length (checkedInputs serviceB) = 2
   \<and> list_all (\<lambda>a. acceptedInput a \<and> plainReference (inp_Type a)
                 \<and> (\<exists>k. innermostKind (inp_Type a) = Some k \<and> inputKind k))
        (checkedInputs serviceB)"
proof -
  have c: "checkedInputs objectArgument = [mkInput ''like'' (listOf (named ''OBJECT'' ''Foo''))]"
    by (simp add: checkedInputs_def objectArgument_def mkSchema_def mkType_def mkField_def)
  have p: "plainReference (listOf (named ''OBJECT'' ''Foo''))"
    by (simp add: plainReference_def listOf_def named_def)
  have k: "innermostKind (listOf (named ''OBJECT'' ''Foo'')) = Some ''OBJECT''"
    by (simp add: innermostKind_def listOf_def named_def)
  from c p k have h: "\<exists>a \<in> set (checkedInputs objectArgument).
          rejectedInput a
          \<or> (plainReference (inp_Type a)
              \<and> (innermostKind (inp_Type a) = Some ''OBJECT'' \<or> innermostKind (inp_Type a) = Some ''UNION''))"
    by (simp add: mkInput_def)
  have np: "\<not> mayPanic objectArgument"
    by (simp add: mayPanic_def mayPanicAt_def objectArgument_def mkSchema_def mkType_def mkField_def
        mkInput_def named_def listOf_def malformedReference_def namedKind_def)
  have i: "intersectVersions mergeSchemaSlice [(''A'', [('''', objectArgument)])]
             (sortedKeys [(''A'', [('''', objectArgument)])]) = Inr [(''A'', objectArgument)]"
    by (simp add: sortedKeys_def versionSchemasOf_def versionsOf_def)
  have m: "mergeSchemaSlice (map snd [(''A'', objectArgument)]) UnionMode = Inr objectArgument"
    by simp
  have ok: "\<exists>tbl. parseSchema serviceB = Inr tbl"
    by (simp add: parseSchema_def parseInputFields_def serviceB_def mkSchema_def mkType_def
        mkField_def mkInput_def named_def namedKind_def)
  have len: "length (checkedInputs serviceB) = 2"
    by (simp add: checkedInputs_def serviceB_def mkSchema_def mkType_def mkField_def mkInput_def)
  have pl: "\<forall>a \<in> set (checkedInputs serviceB). plainReference (inp_Type a)"
    by (simp add: checkedInputs_def serviceB_def mkSchema_def mkType_def mkField_def mkInput_def
        named_def plainReference_def)
  from parseSchema_input_kinds [of objectArgument] h np i m
  have "\<exists>e. parseSchema objectArgument = Inl e \<and> \<not> isPanic e
          \<and> ConvertVersionedSchemas mergeSchemaSlice [(''A'', [('''', objectArgument)])] = Inl e"
    by blast
  moreover from parseSchema_input_kinds [of serviceB] ok pl
  have "\<forall>a \<in> set (checkedInputs serviceB). acceptedInput a \<and> plainReference (inp_Type a)
          \<and> (\<exists>k. innermostKind (inp_Type a) = Some k \<and> inputKind k)"
    by blast
  moreover from ok have "\<not> isl (parseSchema serviceB)" by auto
  ultimately show ?thesis using c p k np len by (simp add: list_all_iff)
qed

text \<open>
  Claim C10 as stated fails. The argument \<open>like\<close> of \<open>scalarOverObject\<close> has a reference of
  kind SCALAR whose \<open>OfType\<close> is an OBJECT reference: \<open>lookupType\<close> stops at the scalar, so
  \<open>parseSchema\<close> accepts the argument, although its innermost, fully unwrapped reference has
  kind OBJECT. In \<open>interfaceThenObject\<close> the argument \<open>like\<close> has an OBJECT reference, but the
  argument before it takes \<open>parseInputFields\<close> into its panicking branch: no error is
  returned.
\<close>

theorem parseSchema_innermost_counterexample:
  "checkedInputs scalarOverObject
     = [mkInput ''like'' (Some (TypeRef ''SCALAR'' ''string'' (named ''OBJECT'' ''Foo'')))]
   \<and> innermostKind (Some (TypeRef ''SCALAR'' ''string'' (named ''OBJECT'' ''Foo''))) = Some ''OBJECT''
   \<and> \<not> isl (parseSchema scalarOverObject)
   \<and> checkedInputs interfaceThenObject
     = [mkInput ''first'' (named ''INTERFACE'' ''Node''), mkInput ''like'' (named ''OBJECT'' ''Foo'')]
   \<and> innermostKind (named ''OBJECT'' ''Foo'') = Some ''OBJECT''
   \<and> parseSchema interfaceThenObject = Inl NilDereference"
  by (simp add: parseSchema_def parseInputFields_def scalarOverObject_def interfaceThenObject_def
      mkSchema_def mkType_def mkField_def mkInput_def named_def namedKind_def checkedInputs_def
      innermostKind_def wrap_def)

subsection \<open>Well-formed inputs and panics\<close>

lemma resolvable_lookupTypeRef:
  "resolvable (map fst tbl) t \<Longrightarrow> \<exists>g. lookupTypeRef t tbl = Inr g"
proof (induction t tbl rule: lookupTypeRef.induct)
  case (1 tbl)
  then show ?case by simp
next
  case (2 k n ot tbl)
  show ?case
  proof (cases "namedKind k")
    case True
    with "2.prems" have "n \<in> set (map fst tbl)" by simp
    then obtain sh where "map_of tbl n = Some sh"
      by (metis map_of_None_keys not_Some_eq)
    with True show ?thesis by simp
  next
    case False
    with "2.prems" have w: "k = ''LIST'' \<or> k = ''NON_NULL''" and r: "resolvable (map fst tbl) ot"
      by simp_all
    from w show ?thesis
    proof
      assume k: "k = ''LIST''"
      with False "2.IH"(1) r obtain g where "lookupTypeRef ot tbl = Inr g" by blast
      with False k show ?thesis by simp
    next
      assume k: "k = ''NON_NULL''"
      with False "2.IH"(2) r obtain g where "lookupTypeRef ot tbl = Inr g" by auto
      with False k show ?thesis by simp
    qed
  qed
qed

lemma acceptedInput_lookupType:
  "acceptedInput a \<Longrightarrow> \<exists>rt. lookupType (inp_Type a) tbl = Inr rt
      \<and> (ref_Kind rt = ''INPUT_OBJECT'' \<or> ref_Kind rt = ''SCALAR'' \<or> ref_Kind rt = ''ENUM'')"
  by (auto simp: acceptedInput_def inputKind_def lookupType_underWrappers namedKind_def
      split: option.splits)

lemma parseInputFieldsLoop_succeeds:
  "\<forall>a \<in> set src. wellFormedInput (map fst tbl) a \<Longrightarrow> \<exists>r. parseInputFieldsLoop src tbl acc = Inr r"
proof (induction src arbitrary: acc)
  case Nil
  then show ?case by simp
next
  case (Cons a rest)
  from Cons.prems have acc: "acceptedInput a" and res: "resolvable (map fst tbl) (inp_Type a)"
    by (simp_all add: wellFormedInput_def)
  from acceptedInput_lookupType[OF acc] obtain rt where rt: "lookupType (inp_Type a) tbl = Inr rt"
    and k: "ref_Kind rt = ''INPUT_OBJECT'' \<or> ref_Kind rt = ''SCALAR'' \<or> ref_Kind rt = ''ENUM''"
    by blast
  from resolvable_lookupTypeRef[OF res] obtain g where g: "lookupTypeRef (inp_Type a) tbl = Inr g"
    by blast
  from Cons.prems have "\<forall>a \<in> set rest. wellFormedInput (map fst tbl) a" by simp
  from Cons.IH[OF this] rt k g show ?case by auto
qed

lemma parseObjectFields_succeeds:
  "\<forall>f \<in> set fs. resolvable (map fst tbl) (fld_Type f)
        \<and> (\<forall>a \<in> set (fld_Args f). wellFormedInput (map fst tbl) a)
     \<Longrightarrow> \<exists>r. parseObjectFields tn fs tbl acc = Inr r"
proof (induction fs arbitrary: acc)
  case Nil
  then show ?case by simp
next
  case (Cons f rest)
  from Cons.prems have "resolvable (map fst tbl) (fld_Type f)" by simp
  from resolvable_lookupTypeRef[OF this] obtain g where g: "lookupTypeRef (fld_Type f) tbl = Inr g"
    by blast
  from Cons.prems have "\<forall>a \<in> set (fld_Args f). wellFormedInput (map fst tbl) a" by simp
  from parseInputFieldsLoop_succeeds[OF this] obtain parsed
    where p: "parseInputFields (fld_Args f) tbl = Inr parsed"
    unfolding parseInputFields_def by blast
  from Cons.prems have "\<forall>f \<in> set rest. resolvable (map fst tbl) (fld_Type f)
        \<and> (\<forall>a \<in> set (fld_Args f). wellFormedInput (map fst tbl) a)" by simp
  from Cons.IH[OF this] g p show ?case by simp
qed

lemma parsePossibleTypes_succeeds:
  "\<forall>other \<in> set os. ref_Kind other = ''OBJECT'' \<and> map_of (skeleton tbl) (ref_Name other) = Some ''OBJECT''
     \<Longrightarrow> \<exists>r. parsePossibleTypes tn os tbl acc = Inr r"
proof (induction os arbitrary: acc)
  case Nil
  then show ?case by simp
next
  case (Cons other rest)
  from Cons.prems have k: "ref_Kind other = ''OBJECT''"
    and "map_of (skeleton tbl) (ref_Name other) = Some ''OBJECT''" by simp_all
  then obtain sh where sh: "map_of tbl (ref_Name other) = Some sh" and "kindOf sh = ''OBJECT''"
    by (auto simp: skeleton_map_of)
  then obtain n fs where "sh = GObject n fs" by (cases sh) auto
  with sh k Cons.IH Cons.prems show ?case by simp
qed

lemma parsePopulate_succeeds:
  assumes d: "distinct (map typ_Name ts0)"
  shows "skeleton tbl = map (\<lambda>t. (typ_Name t, typ_Kind t)) ts0 \<Longrightarrow> set ts \<subseteq> set ts0
     \<Longrightarrow> \<forall>t \<in> set ts. wellFormedType ts0 t \<Longrightarrow> \<exists>tbl'. parsePopulate ts tbl = Inr tbl'"
proof (induction ts arbitrary: tbl)
  case Nil
  show ?case by simp
next
  case (Cons ty rest)
  note sk = Cons.prems(1)
  from Cons.prems(2) have ty: "ty \<in> set ts0" and sub: "set rest \<subseteq> set ts0" by simp_all
  from Cons.prems(3) have wty: "wellFormedType ts0 ty" and wrest: "\<forall>t \<in> set rest. wellFormedType ts0 t"
    by simp_all
  from skeleton_names[OF sk] have names: "map fst tbl = map typ_Name ts0" .
  from skeleton_lookup[OF sk d ty]
  obtain sh where sh: "map_of tbl (typ_Name ty) = Some sh" and ksh: "kindOf sh = typ_Kind ty"
    by blast
  have next_ok: "\<exists>tbl'. parsePopulate rest (AList.update (typ_Name ty) v tbl) = Inr tbl'"
    if kv: "kindOf v = typ_Kind ty" for v
  proof -
    from kv ksh have "kindOf v = kindOf sh" by simp
    from skeleton_update_same[OF sh this] sk
    have "skeleton (AList.update (typ_Name ty) v tbl) = map (\<lambda>t. (typ_Name t, typ_Kind t)) ts0"
      by simp
    from Cons.IH[OF this sub wrest] show ?thesis .
  qed
  from wty have "namedKind (typ_Kind ty)" by (simp add: wellFormedType_def)
  then consider (obj) "typ_Kind ty = ''OBJECT''" | (inp) "typ_Kind ty = ''INPUT_OBJECT''"
    | (uni) "typ_Kind ty = ''UNION''" | (enum) "typ_Kind ty = ''ENUM''" | (sca) "typ_Kind ty = ''SCALAR''"
    unfolding namedKind_def by blast
  then show ?case
  proof cases
    case obj
    from wty obj have "\<forall>f \<in> set (typ_Fields ty). resolvable (map typ_Name ts0) (fld_Type f)
        \<and> (\<forall>a \<in> set (fld_Args f). wellFormedInput (map typ_Name ts0) a)"
      unfolding wellFormedType_def by blast
    with names have "\<forall>f \<in> set (typ_Fields ty). resolvable (map fst tbl) (fld_Type f)
        \<and> (\<forall>a \<in> set (fld_Args f). wellFormedInput (map fst tbl) a)"
      by simp
    from parseObjectFields_succeeds[OF this] obtain fs
      where fs: "parseObjectFields (typ_Name ty) (typ_Fields ty) tbl [] = Inr fs" by blast
    from obj ksh have "kindOf sh = ''OBJECT''" by simp
    from kindOf_object[OF this] obtain n old where s: "sh = GObject n old" by blast
    have "kindOf (GObject n fs) = typ_Kind ty" using obj by simp
    from next_ok[OF this] obtain tbl'
      where "parsePopulate rest (AList.update (typ_Name ty) (GObject n fs) tbl) = Inr tbl'" by blast
    moreover from sh s have "map_of tbl (typ_Name ty) = Some (GObject n old)" by simp
    note parsePopulate_object[OF obj fs this, of rest]
    ultimately show ?thesis by simp
  next
    case inp
    from wty inp have "\<forall>a \<in> set (typ_InputFields ty). wellFormedInput (map typ_Name ts0) a"
      unfolding wellFormedType_def by blast
    with names have "\<forall>a \<in> set (typ_InputFields ty). wellFormedInput (map fst tbl) a"
      by simp
    from parseInputFieldsLoop_succeeds[OF this] obtain parsed
      where p: "parseInputFields (typ_InputFields ty) tbl = Inr parsed"
      unfolding parseInputFields_def by blast
    from inp ksh have "kindOf sh = ''INPUT_OBJECT''" by simp
    from kindOf_input_object[OF this] obtain n old where s: "sh = GInputObject n old" by blast
    have "kindOf (GInputObject n parsed) = typ_Kind ty" using inp by simp
    from next_ok[OF this] obtain tbl'
      where "parsePopulate rest (AList.update (typ_Name ty) (GInputObject n parsed) tbl) = Inr tbl'" by blast
    moreover from sh s have "map_of tbl (typ_Name ty) = Some (GInputObject n old)" by simp
    note parsePopulate_input_object[OF inp p this, of rest]
    ultimately show ?thesis by simp
  next
    case uni
    have "\<forall>other \<in> set (typ_PossibleTypes ty). ref_Kind other = ''OBJECT''
        \<and> map_of (skeleton tbl) (ref_Name other) = Some ''OBJECT''"
    proof
      fix other assume o: "other \<in> set (typ_PossibleTypes ty)"
      with wty uni have k: "ref_Kind other = ''OBJECT''"
        and "\<exists>t' \<in> set ts0. typ_Name t' = ref_Name other \<and> typ_Kind t' = ''OBJECT''"
        unfolding wellFormedType_def by blast+
      then obtain t' where t': "t' \<in> set ts0" and n: "typ_Name t' = ref_Name other"
        and kt: "typ_Kind t' = ''OBJECT''"
        by blast
      from skeleton_declared[OF sk d t'] n kt
      have "map_of (skeleton tbl) (ref_Name other) = Some ''OBJECT''" by simp
      with k show "ref_Kind other = ''OBJECT'' \<and> map_of (skeleton tbl) (ref_Name other) = Some ''OBJECT''"
        by simp
    qed
    from parsePossibleTypes_succeeds[OF this] obtain us
      where us: "parsePossibleTypes (typ_Name ty) (typ_PossibleTypes ty) tbl [] = Inr us" by blast
    from uni ksh have "kindOf sh = ''UNION''" by simp
    from kindOf_union[OF this] obtain n old where s: "sh = GUnion n old" by blast
    have "kindOf (GUnion n us) = typ_Kind ty" using uni by simp
    from next_ok[OF this] obtain tbl'
      where "parsePopulate rest (AList.update (typ_Name ty) (GUnion n us) tbl) = Inr tbl'" by blast
    moreover from sh s have "map_of tbl (typ_Name ty) = Some (GUnion n old)" by simp
    note parsePopulate_union[OF uni us this, of rest]
    ultimately show ?thesis by simp
  next
    case enum
    from enum ksh have "kindOf sh = ''ENUM''" by simp
    from kindOf_enum[OF this] obtain n vs rm where s: "sh = GEnum n vs rm" by blast
    have "kindOf (GEnum n (typ_EnumValues ty) (fold (\<lambda>v m. AList.update v v m) (typ_EnumValues ty) [])) = typ_Kind ty"
      using enum by simp
    from next_ok[OF this] obtain tbl' where "parsePopulate rest (AList.update (typ_Name ty)
        (GEnum n (typ_EnumValues ty) (fold (\<lambda>v m. AList.update v v m) (typ_EnumValues ty) [])) tbl) = Inr tbl'"
      by blast
    moreover from sh s have "map_of tbl (typ_Name ty) = Some (GEnum n vs rm)" by simp
    note parsePopulate_enum[OF enum this, of rest]
    ultimately show ?thesis by simp
  next
    case sca
    from Cons.IH[OF sk sub wrest] obtain tbl' where "parsePopulate rest tbl = Inr tbl'"
      by blast
    with parsePopulate_scalar[OF sca, of rest tbl] show ?thesis by simp
  qed
qed

lemma parsePopulate_skeleton:
  "parsePopulate ts tbl = Inr tbl' \<Longrightarrow> skeleton tbl' = skeleton tbl"
proof (induction ts arbitrary: tbl)
  case Nil
  then show ?case by simp
next
  case (Cons ty rest)
  from Cons.prems obtain tbl1 where r: "parsePopulate rest tbl1 = Inr tbl'"
    and s: "skeleton tbl1 = skeleton tbl"
    by (auto split: if_splits sum.splits option.splits gshell.splits simp: skeleton_update_same)
  from Cons.IH[OF r] s show ?case by simp
qed

text \<open>
  Resolving a reference reads the names of the table only: \<open>lookupTypeRef\<close> recurses on the
  \<open>OfType\<close> chain of the reference and never enters the type the reference names.
\<close>

lemma lookupTypeRef_names:
  "map fst tbl = map fst tbl' \<Longrightarrow> lookupTypeRef t tbl = lookupTypeRef t tbl'"
proof (induction t tbl rule: lookupTypeRef.induct)
  case (1 tbl)
  then show ?case by simp
next
  case (2 k n ot tbl)
  from "2.prems" have "map_of tbl n = None \<longleftrightarrow> map_of tbl' n = None"
    by (simp add: map_of_None_keys)
  then have m: "(case map_of tbl n of None \<Rightarrow> Inl (TypeNotFound n) | Some ty \<Rightarrow> Inr (GRef n))
      = (case map_of tbl' n of None \<Rightarrow> Inl (TypeNotFound n) | Some ty \<Rightarrow> Inr (GRef n))"
    by (cases "map_of tbl n"; cases "map_of tbl' n") simp_all
  show ?case
  proof (cases "namedKind k")
    case True
    with m show ?thesis by simp
  next
    case False
    with "2.IH" "2.prems" show ?thesis by (auto simp: namedKind_def)
  qed
qed

text \<open>
  On every well-formed input, where a reference may name any declared type and so close a
  cycle, \<open>parseSchema\<close> returns a table that holds, for each type of the input and in the
  order of the input, a shell of the kind of the type.
\<close>

lemma parseSchema_succeeds:
  assumes wf: "wellFormed s"
  shows "\<exists>tbl. parseSchema s = Inr tbl
           \<and> skeleton tbl = map (\<lambda>t. (typ_Name t, typ_Kind t)) (Types (Schema s))"
proof -
  from wf have d: "distinct (map typ_Name (Types (Schema s)))"
    and k: "\<forall>t \<in> set (Types (Schema s)). namedKind (typ_Kind t)"
    and w: "\<forall>t \<in> set (Types (Schema s)). wellFormedType (Types (Schema s)) t"
    by (simp_all add: wellFormed_def wellFormedType_def)
  from parseShells_succeeds[of "Types (Schema s)" "[]"] d k
  obtain sh where sh: "parseShells (Types (Schema s)) [] = Inr sh"
    and sk: "skeleton sh = map (\<lambda>t. (typ_Name t, typ_Kind t)) (Types (Schema s))"
    by (auto simp: skeleton_def)
  from parsePopulate_succeeds[OF d sk _ w] obtain tbl
    where p: "parsePopulate (Types (Schema s)) sh = Inr tbl" by auto
  with sh have "parseSchema s = Inr tbl" by (simp add: parseSchema_def)
  moreover from parsePopulate_skeleton[OF p] sk
  have "skeleton tbl = map (\<lambda>t. (typ_Name t, typ_Kind t)) (Types (Schema s))" by simp
  ultimately show ?thesis by blast
qed

lemma cyclicFoo_wellFormed: "wellFormed cyclicFoo"
  by (simp add: wellFormed_def wellFormedType_def wellFormedInput_def cyclicFoo_def mkSchema_def
      mkType_def mkField_def named_def listOf_def namedKind_def)

text \<open>
  The two panicking branches, in general: the first input of a list with a malformed
  reference, and the first member of a union that has kind OBJECT and is not an object of
  the table.
\<close>

lemma lookupType_malformed: "malformedReference t \<Longrightarrow> \<exists>e. lookupType t tbl = Inl e"
  by (auto simp: lookupType_underWrappers malformedReference_def split: option.splits)

lemma parseInputFieldsLoop_malformed:
  assumes "malformedReference (inp_Type a)"
  shows "parseInputFieldsLoop (a # rest) tbl acc = Inl NilDereference"
proof -
  from lookupType_malformed[OF assms] obtain e where "lookupType (inp_Type a) tbl = Inl e"
    by blast
  then show ?thesis by simp
qed

lemma parsePossibleTypes_missing:
  "ref_Kind other = ''OBJECT'' \<Longrightarrow> map_of tbl (ref_Name other) = None
     \<Longrightarrow> parsePossibleTypes tn (other # rest) tbl acc = Inl NilDereference"
  by simp

text \<open>
  Claim C7. The recursion of \<open>parseSchema\<close> is structural, on the lists of types, fields
  and inputs and on the \<open>OfType\<close> chain of one reference, so no input makes it loop. The
  function is nevertheless not total on the finite introspection results: an argument whose
  reference has an unknown kind takes \<open>parseInputFields\<close> into the error branch of
  \<open>lookupType\<close>, which formats \<open>rawType.Name\<close> of the nil \<open>rawType\<close>, and a union member that
  names no object of the table takes \<open>parseSchema\<close> into the branch that formats \<open>typ.Name\<close>
  of the nil object. On both inputs the code panics and returns neither a table nor an
  error.
\<close>

theorem parseSchema_not_total:
  "parseSchema interfaceArgument = Inl NilDereference
   \<and> parseSchema unionOfMissing = Inl NilDereference"
  by (simp add: parseSchema_def parseInputFields_def interfaceArgument_def unionOfMissing_def
      mkSchema_def mkType_def mkField_def mkInput_def named_def namedKind_def wrap_def)

section \<open>Properties of the annotation loop\<close>

subsection \<open>Iteration\<close>

lemma forEach_invariant:
  assumes "forEach body xs st = Inr st'"
    and "I st"
    and step: "\<And>x s s'. x \<in> set xs \<Longrightarrow> I s \<Longrightarrow> body x s = Inr s' \<Longrightarrow> I s'"
  shows "I st'"
  using assms(1,2) step
proof (induction xs arbitrary: st)
  case Nil
  then show ?case by simp
next
  case (Cons x xs)
  from Cons.prems(1) obtain s1 where b: "body x st = Inr s1" and r: "forEach body xs s1 = Inr st'"
    by (auto split: sum.splits)
  have "x \<in> set (x # xs)" by simp
  from Cons.prems(3)[OF this Cons.prems(2) b] have i1: "I s1" .
  have "\<And>y s s'. y \<in> set xs \<Longrightarrow> I s \<Longrightarrow> body y s = Inr s' \<Longrightarrow> I s'"
  proof -
    fix y s s' assume "y \<in> set xs" and i: "I s" and b: "body y s = Inr s'"
    then have "y \<in> set (x # xs)" by simp
    from Cons.prems(3)[OF this i b] show "I s'" .
  qed
  from Cons.IH[OF r i1 this] show ?case .
qed

text \<open>What one iteration establishes, and every later one keeps, holds at the end.\<close>

lemma forEach_establish:
  assumes "forEach body xs st = Inr st'"
    and "x \<in> set xs"
    and "I st"
    and inv: "\<And>y s s'. y \<in> set xs \<Longrightarrow> I s \<Longrightarrow> body y s = Inr s' \<Longrightarrow> I s'"
    and est: "\<And>s s'. I s \<Longrightarrow> body x s = Inr s' \<Longrightarrow> Q s'"
    and keep: "\<And>y s s'. y \<in> set xs \<Longrightarrow> I s \<Longrightarrow> Q s \<Longrightarrow> body y s = Inr s' \<Longrightarrow> Q s'"
  shows "Q st'"
  using assms(1,2,3) inv keep
proof (induction xs arbitrary: st)
  case Nil
  then show ?case by simp
next
  case (Cons y ys)
  from Cons.prems(1) obtain s1 where b: "body y st = Inr s1" and r: "forEach body ys s1 = Inr st'"
    by (auto split: sum.splits)
  have yin: "y \<in> set (y # ys)" by simp
  from Cons.prems(4)[OF yin Cons.prems(3) b] have i1: "I s1" .
  have inv': "\<And>z s s'. z \<in> set ys \<Longrightarrow> I s \<Longrightarrow> body z s = Inr s' \<Longrightarrow> I s'"
  proof -
    fix z s s' assume "z \<in> set ys" and i: "I s" and b: "body z s = Inr s'"
    then have "z \<in> set (y # ys)" by simp
    from Cons.prems(4)[OF this i b] show "I s'" .
  qed
  have keep': "\<And>z s s'. z \<in> set ys \<Longrightarrow> I s \<Longrightarrow> Q s \<Longrightarrow> body z s = Inr s' \<Longrightarrow> Q s'"
  proof -
    fix z s s' assume "z \<in> set ys" and i: "I s" and q: "Q s" and b: "body z s = Inr s'"
    then have "z \<in> set (y # ys)" by simp
    from Cons.prems(5)[OF this i q b] show "Q s'" .
  qed
  show ?case
  proof (cases "x = y")
    case True
    with est[OF Cons.prems(3)] b have "Q s1" by simp
    with i1 have start: "I s1 \<and> Q s1" by simp
    have "I st' \<and> Q st'"
    proof (rule forEach_invariant[where I = "\<lambda>s. I s \<and> Q s", OF r start])
      fix z s s' assume z: "z \<in> set ys" and iq: "I s \<and> Q s" and b: "body z s = Inr s'"
      from inv'[OF z _ b] keep'[OF z _ _ b] iq show "I s' \<and> Q s'" by simp
    qed
    then show ?thesis by simp
  next
    case False
    with Cons.prems(2) have "x \<in> set ys" by simp
    from Cons.IH[OF r this i1 inv' keep'] show ?thesis .
  qed
qed


subsection \<open>The annotation loop changes the \<open>FederatedKey\<close> maps only\<close>

lemma erase_map_of: "map_of (erase tbl) n = map_option eraseShell (map_of tbl n)"
  by (induction tbl) (auto simp: erase_def)

lemma erase_update_same:
  "map_of tbl k = Some w \<Longrightarrow> eraseShell v = eraseShell w \<Longrightarrow> erase (AList.update k v tbl) = erase tbl"
  by (induction tbl) (auto simp: erase_def)

lemma eraseField_setFederatedKey: "eraseField (setFederatedKey service f) = eraseField f"
  by (simp add: eraseField_def setFederatedKey_def)

lemma erase_markFederatedKeys:
  "map (\<lambda>(k, f). (k, eraseField f)) (markFederatedKeys service inputFields fs)
     = map (\<lambda>(k, f). (k, eraseField f)) fs"
  by (induction fs) (auto simp: markFederatedKeys_def eraseField_setFederatedKey)

lemma erase_setObjFields:
  "erase (setObjFields n (markFederatedKeys service inputFields (objFields tbl n)) tbl) = erase tbl"
proof (cases "map_of tbl n")
  case None
  then show ?thesis by (simp add: setObjFields_def)
next
  case (Some sh)
  show ?thesis
  proof (cases sh)
    case (GObject on fs)
    with Some have f: "objFields tbl n = fs" by (simp add: objFields_def)
    have "eraseShell (GObject on (markFederatedKeys service inputFields fs)) = eraseShell (GObject on fs)"
      by (simp add: erase_markFederatedKeys)
    with Some GObject have "erase (AList.update n (GObject on (markFederatedKeys service inputFields fs)) tbl) = erase tbl"
      by (simp add: erase_update_same)
    with Some GObject f show ?thesis by (simp add: setObjFields_def)
  qed (use Some in \<open>simp_all add: setObjFields_def\<close>)
qed

lemma objFields_erase:
  "objFields (erase tbl) n = map (\<lambda>(k, f). (k, eraseField f)) (objFields tbl n)"
proof (cases "map_of tbl n")
  case None
  then show ?thesis by (simp add: objFields_def erase_map_of)
next
  case (Some sh)
  then show ?thesis by (cases sh) (simp_all add: objFields_def erase_map_of)
qed

lemma erase_field_names:
  assumes "erase tbl' = erase tbl"
  shows "map fst (objFields tbl' n) = map fst (objFields tbl n)"
proof -
  have "map fst (objFields (erase t) n) = map fst (objFields t n)" for t
    by (simp add: objFields_erase comp_def case_prod_unfold)
  with assms show ?thesis by metis
qed

lemma erase_has_field:
  assumes "erase tbl' = erase tbl"
  shows "(map_of (objFields tbl' n) k = None) = (map_of (objFields tbl n) k = None)"
proof -
  have "set (map fst (objFields tbl' n)) = set (map fst (objFields tbl n))"
    by (simp only: erase_field_names[OF assms])
  then show ?thesis
    by (simp only: map_of_None_keys)
qed

lemma erase_fieldPointer:
  assumes "erase tbl' = erase tbl"
  shows "fieldPointer tbl' n k = fieldPointer tbl n k"
  by (simp only: fieldPointer_def erase_has_field[OF assms])

lemma eraseShell_input: "eraseShell sh = GInputObject m ifs \<longleftrightarrow> sh = GInputObject m ifs"
  by (cases sh) auto

lemma erase_input_object:
  assumes "erase tbl' = erase tbl"
  shows "map_of tbl' n = Some (GInputObject m ifs) \<longleftrightarrow> map_of tbl n = Some (GInputObject m ifs)"
proof -
  have "(map_of (erase t) n = Some (GInputObject m ifs)) = (map_of t n = Some (GInputObject m ifs))" for t
    by (cases "map_of t n") (simp_all add: erase_map_of eraseShell_input)
  with assms show ?thesis by metis
qed

lemma eraseShell_object: "(\<exists>on fs. eraseShell sh = GObject on fs) \<longleftrightarrow> (\<exists>on fs. sh = GObject on fs)"
  by (cases sh) auto

lemma erase_object:
  assumes "erase tbl' = erase tbl"
  shows "(\<exists>on fs. map_of tbl' n = Some (GObject on fs)) \<longleftrightarrow> (\<exists>on fs. map_of tbl n = Some (GObject on fs))"
proof -
  have "(\<exists>on fs. map_of (erase t) n = Some (GObject on fs)) = (\<exists>on fs. map_of t n = Some (GObject on fs))" for t
  proof (cases "map_of t n")
    case None
    then show ?thesis by (simp add: erase_map_of)
  next
    case (Some sh)
    then show ?thesis using eraseShell_object[of sh] by (simp add: erase_map_of)
  qed
  with assms show ?thesis by metis
qed

lemma annotateArg_erase:
  "annotateArg names byName service fieldName objName arg tbl = Inr tbl' \<Longrightarrow> erase tbl' = erase tbl"
  by (auto simp: annotateArg_def erase_setObjFields split: sum.splits option.splits gshell.splits)

lemma annotateEntry_erase:
  assumes "annotateEntry names byName service field tbl = Inr tbl'"
  shows "erase tbl' = erase tbl"
proof -
  from assms obtain objName where
    "forEach (annotateArg names byName service (fld_Name field) objName) (fld_Args field) tbl = Inr tbl'"
    by (auto simp: annotateEntry_def split: list.splits option.splits gshell.splits)
  then show ?thesis
  proof (rule forEach_invariant[where I = "\<lambda>t. erase t = erase tbl"])
    show "erase tbl = erase tbl" ..
  next
    fix x s s'
    assume "erase s = erase tbl" and "annotateArg names byName service (fld_Name field) objName x s = Inr s'"
    with annotateArg_erase show "erase s' = erase tbl" by metis
  qed
qed

lemma annotateEntries_erase:
  assumes "forEach (annotateEntry names byName service) fs tbl = Inr tbl'"
  shows "erase tbl' = erase tbl"
  using assms
proof (rule forEach_invariant[where I = "\<lambda>t. erase t = erase tbl"])
  show "erase tbl = erase tbl" ..
next
  fix x s s'
  assume "erase s = erase tbl" and "annotateEntry names byName service x s = Inr s'"
  with annotateEntry_erase show "erase s' = erase tbl" by metis
qed

lemma annotateType_erase:
  assumes "annotateType names byName service ty st = Inr st'"
  shows "erase (fst st') = erase (fst st)"
proof -
  from assms obtain tbl1 where
    e: "(if typ_Name ty = ''Federation''
         then forEach (annotateEntry names byName service) (typ_Fields ty) (fst st)
         else Inr (fst st)) = Inr tbl1" and f: "fst st' = tbl1"
    by (auto simp: annotateType_def split: sum.splits if_splits option.splits gshell.splits)
  from e have "erase tbl1 = erase (fst st)"
    by (auto split: if_splits dest: annotateEntries_erase)
  with f show ?thesis by simp
qed

lemma annotateTypes_erase:
  assumes "forEach (annotateType names byName service) ts st = Inr st'"
  shows "erase (fst st') = erase (fst st)"
  using assms
proof (rule forEach_invariant[where I = "\<lambda>s. erase (fst s) = erase (fst st)"])
  show "erase (fst st) = erase (fst st)" ..
next
  fix x s s'
  assume "erase (fst s) = erase (fst st)" and "annotateType names byName service x s = Inr s'"
  with annotateType_erase show "erase (fst s') = erase (fst st)" by metis
qed

lemma annotateService_erase:
  assumes "annotateService names byName service st = Inr st'"
  shows "erase (fst st') = erase (fst st)"
  using assms by (auto simp: annotateService_def split: option.splits dest: annotateTypes_erase)

lemma annotateServices_erase:
  assumes "forEach (annotateService names byName) svcs st = Inr st'"
  shows "erase (fst st') = erase (fst st)"
  using assms
proof (rule forEach_invariant[where I = "\<lambda>s. erase (fst s) = erase (fst st)"])
  show "erase (fst st) = erase (fst st)" ..
next
  fix x s s'
  assume "erase (fst s) = erase (fst st)" and "annotateService names byName x s = Inr s'"
  with annotateService_erase show "erase (fst s') = erase (fst st)" by metis
qed

subsection \<open>The services of a field\<close>

lemma intersectVersions_keys:
  "intersectVersions mss schemas names = Inr byName \<Longrightarrow> map fst byName = names"
  by (induction names arbitrary: byName) (auto split: sum.splits)

lemma sortedKeys_distinct: "distinct (sortedKeys m)"
  by (simp add: sortedKeys_def)

lemma byName_lookup:
  assumes "intersectVersions mss schemas (sortedKeys schemas) = Inr byName"
    and "(service, schema) \<in> set byName"
  shows "map_of byName service = Some schema" and "service \<in> set (sortedKeys schemas)"
proof -
  from intersectVersions_keys[OF assms(1)] have k: "map fst byName = sortedKeys schemas" .
  with sortedKeys_distinct[of schemas] have "distinct (map fst byName)" by simp
  with assms(2) show "map_of byName service = Some schema" by simp
  from assms(2) have "service \<in> set (map fst byName)" by force
  with k show "service \<in> set (sortedKeys schemas)" by simp
qed

lemma ConvertVersionedSchemas_stages:
  assumes "ConvertVersionedSchemas mss schemas = Inr r"
  obtains byName types types' infos where
    "intersectVersions mss schemas (sortedKeys schemas) = Inr byName"
    "mergeAndParse mss schemas = Inr (byName, types)"
    "validateAllFederatedObjects (sortedKeys schemas) byName (map fst types) = Inr ()"
    "forEach (annotateService (sortedKeys schemas) byName) (sortedKeys schemas) (types, Map.empty) = Inr (types', infos)"
    "validateFieldsReturningFederatedObject (sortedKeys schemas) byName types' infos = Inr ()"
    "Fields r = infos" "TypeTable r = types'"
proof -
  from assms obtain byName types where mp: "mergeAndParse mss schemas = Inr (byName, types)"
    and fed: "federate (sortedKeys schemas) byName types = Inr r"
    by (auto simp: ConvertVersionedSchemas_def split: sum.splits)
  from mp have iv: "intersectVersions mss schemas (sortedKeys schemas) = Inr byName"
    by (auto simp: mergeAndParse_def split: sum.splits)
  from fed obtain types' infos where
    v: "validateAllFederatedObjects (sortedKeys schemas) byName (map fst types) = Inr ()"
    and a: "forEach (annotateService (sortedKeys schemas) byName) (sortedKeys schemas) (types, Map.empty) = Inr (types', infos)"
    and s: "validateFieldsReturningFederatedObject (sortedKeys schemas) byName types' infos = Inr ()"
    and r: "r = \<lparr>SchemaOf = \<lparr>Query = map_of types' ''Query'', Mutation = map_of types' ''Mutation''\<rparr>,
                         Fields = infos, TypeTable = types'\<rparr>"
    by (auto simp: federate_def split: sum.splits prod.splits)
  from r have "Fields r = infos" "TypeTable r = types'" by simp_all
  with that iv mp v a s show thesis by blast
qed

lemma served_addService: "served (addService service f infos) f service"
  by (simp add: served_def addService_def Let_def)

lemma served_addService_mono: "served infos p s \<Longrightarrow> served (addService service f infos) p s"
  by (auto simp: served_def addService_def Let_def split: option.splits)

lemma annotateObjectFields_mono:
  "served infos p s \<Longrightarrow> served (annotateObjectFields service tbl objName fs infos) p s"
  by (induction fs arbitrary: infos) (simp_all add: served_addService_mono)

lemma annotateObjectFields_serves:
  "field \<in> set fs \<Longrightarrow>
     served (annotateObjectFields service tbl objName fs infos) (fieldPointer tbl objName (fld_Name field)) service"
proof (induction fs arbitrary: infos)
  case Nil
  then show ?case by simp
next
  case (Cons f rest)
  show ?case
  proof (cases "field = f")
    case True
    have "served (addService service (fieldPointer tbl objName (fld_Name f)) infos)
            (fieldPointer tbl objName (fld_Name f)) service"
      by (rule served_addService)
    with True show ?thesis by (simp add: annotateObjectFields_mono)
  next
    case False
    with Cons.prems have "field \<in> set rest" by simp
    from Cons.IH[OF this] show ?thesis by simp
  qed
qed

lemma annotateType_mono:
  assumes "annotateType names byName service ty st = Inr st'" and "served (snd st) p s"
  shows "served (snd st') p s"
  using assms
  by (auto simp: annotateType_def annotateObjectFields_mono split: sum.splits if_splits option.splits gshell.splits)

lemma annotateTypes_mono:
  assumes "forEach (annotateType names byName service) ts st = Inr st'" and "served (snd st) p s"
  shows "served (snd st') p s"
  using assms(1)
proof (rule forEach_invariant[where I = "\<lambda>st. served (snd st) p s"])
  show "served (snd st) p s" by fact
next
  fix x st1 st2
  assume "served (snd st1) p s" and "annotateType names byName service x st1 = Inr st2"
  then show "served (snd st2) p s" using annotateType_mono by blast
qed

lemma annotateService_mono:
  assumes "annotateService names byName service st = Inr st'" and "served (snd st) p s"
  shows "served (snd st') p s"
  using assms by (auto simp: annotateService_def split: option.splits dest: annotateTypes_mono)

lemma annotateType_serves:
  assumes "annotateType names byName service ty st = Inr st'"
    and "typ_Kind ty = ''OBJECT''"
    and "field \<in> set (typ_Fields ty)"
  shows "served (snd st') (fieldPointer (fst st') (typ_Name ty) (fld_Name field)) service"
proof -
  from assms(1,2) obtain tbl1 where
    "st' = (tbl1, annotateObjectFields service tbl1 (typ_Name ty) (typ_Fields ty) (snd st))"
    by (auto simp: annotateType_def split: sum.splits option.splits gshell.splits)
  with annotateObjectFields_serves[OF assms(3)] show ?thesis by simp
qed

lemma annotateTypes_serves:
  assumes run: "forEach (annotateType names byName service) ts st = Inr st'"
    and ty: "ty \<in> set ts"
    and kind: "typ_Kind ty = ''OBJECT''"
    and field: "field \<in> set (typ_Fields ty)"
  shows "served (snd st') (fieldPointer (fst st') (typ_Name ty) (fld_Name field)) service"
proof (rule forEach_establish[where I = "\<lambda>s. True"
      and Q = "\<lambda>s. served (snd s) (fieldPointer (fst s) (typ_Name ty) (fld_Name field)) service", OF run ty])
  show True ..
next
  fix y :: introspectionType and s s' :: "types \<times> fieldInfos"
  show True ..
next
  fix s s' assume "annotateType names byName service ty s = Inr s'"
  from annotateType_serves[OF this kind field]
  show "served (snd s') (fieldPointer (fst s') (typ_Name ty) (fld_Name field)) service" .
next
  fix y s s'
  assume q: "served (snd s) (fieldPointer (fst s) (typ_Name ty) (fld_Name field)) service"
    and b: "annotateType names byName service y s = Inr s'"
  from annotateType_erase[OF b] have "fieldPointer (fst s') (typ_Name ty) (fld_Name field)
      = fieldPointer (fst s) (typ_Name ty) (fld_Name field)"
    by (rule erase_fieldPointer)
  with annotateType_mono[OF b q]
  show "served (snd s') (fieldPointer (fst s') (typ_Name ty) (fld_Name field)) service" by simp
qed

lemma annotateServices_serves:
  assumes run: "forEach (annotateService names byName) svcs st = Inr st'"
    and svc: "service \<in> set svcs"
    and schema: "map_of byName service = Some schema"
    and ty: "ty \<in> set (Types (Schema schema))"
    and kind: "typ_Kind ty = ''OBJECT''"
    and field: "field \<in> set (typ_Fields ty)"
  shows "served (snd st') (fieldPointer (fst st') (typ_Name ty) (fld_Name field)) service"
proof (rule forEach_establish[where I = "\<lambda>s. True"
      and Q = "\<lambda>s. served (snd s) (fieldPointer (fst s) (typ_Name ty) (fld_Name field)) service", OF run svc])
  show True ..
next
  fix y :: string and s s' :: "types \<times> fieldInfos"
  show True ..
next
  fix s s' assume "annotateService names byName service s = Inr s'"
  with schema have "forEach (annotateType names byName service) (Types (Schema schema)) s = Inr s'"
    by (simp add: annotateService_def)
  from annotateTypes_serves[OF this ty kind field]
  show "served (snd s') (fieldPointer (fst s') (typ_Name ty) (fld_Name field)) service" .
next
  fix y s s'
  assume q: "served (snd s) (fieldPointer (fst s) (typ_Name ty) (fld_Name field)) service"
    and b: "annotateService names byName y s = Inr s'"
  from annotateService_erase[OF b] have "fieldPointer (fst s') (typ_Name ty) (fld_Name field)
      = fieldPointer (fst s) (typ_Name ty) (fld_Name field)"
    by (rule erase_fieldPointer)
  with annotateService_mono[OF b q]
  show "served (snd s') (fieldPointer (fst s') (typ_Name ty) (fld_Name field)) service" by simp
qed

text \<open>
  Claim C4. When \<open>ConvertVersionedSchemas\<close> succeeds, every field of every OBJECT type of the
  version-intersected schema of a service \<open>S\<close> has \<open>Services[S]\<close> true in the returned
  \<open>Fields\<close>, under the pointer \<open>obj.Fields[field.Name]\<close> of the merged object.
\<close>

theorem services_of_declared_fields:
  assumes "ConvertVersionedSchemas mss schemas = Inr r"
    and "intersectVersions mss schemas (sortedKeys schemas) = Inr byName"
    and "(service, schema) \<in> set byName"
    and "ty \<in> set (Types (Schema schema))"
    and "typ_Kind ty = ''OBJECT''"
    and "field \<in> set (typ_Fields ty)"
  shows "served (Fields r) (fieldPointer (TypeTable r) (typ_Name ty) (fld_Name field)) service"
proof -
  from assms(1) obtain byName' types types' infos where
    iv: "intersectVersions mss schemas (sortedKeys schemas) = Inr byName'"
    and run: "forEach (annotateService (sortedKeys schemas) byName') (sortedKeys schemas) (types, Map.empty) = Inr (types', infos)"
    and r: "Fields r = infos" "TypeTable r = types'"
    by (rule ConvertVersionedSchemas_stages)
  from iv assms(2) have same: "byName' = byName" by simp
  from byName_lookup[OF assms(2,3)]
  have l: "map_of byName service = Some schema" and s: "service \<in> set (sortedKeys schemas)" .
  from annotateServices_serves[OF run[unfolded same] s l assms(4,5,6)] r show ?thesis by simp
qed

lemma twoServices_byName:
  "intersectVersions mergeSchemaSlice twoServices (sortedKeys twoServices) = Inr [(''A'', serviceA), (''B'', serviceB)]"
  by (simp add: twoServices_def sortedKeys_def versionsOf_def versionSchemasOf_def)

lemma twoServices_succeeds: "\<not> isl (ConvertVersionedSchemas mergeSchemaSlice twoServices)"
  by code_simp

lemma twoServices_pointer:
  "(case ConvertVersionedSchemas mergeSchemaSlice twoServices of
      Inl e \<Rightarrow> False
    | Inr r \<Rightarrow> fieldPointer (TypeTable r) ''Foo'' ''s2ok'' = Some (''Foo'', ''s2ok''))"
  by code_simp

theorem services_of_declared_fields_witness:
  "\<exists>r. ConvertVersionedSchemas mergeSchemaSlice twoServices = Inr r
     \<and> served (Fields r) (Some (''Foo'', ''s2ok'')) ''B''"
proof -
  from twoServices_succeeds obtain r where r: "ConvertVersionedSchemas mergeSchemaSlice twoServices = Inr r"
    by (cases "ConvertVersionedSchemas mergeSchemaSlice twoServices") simp_all
  have b: "(''B'', serviceB) \<in> set [(''A'', serviceA), (''B'', serviceB)]" by simp
  define foo where "foo = mkType ''Foo'' ''OBJECT''
          [mkField ''_federation'' (named ''SCALAR'' ''string'') [],
           mkField ''name'' (named ''SCALAR'' ''string'') [],
           mkField ''s2ok'' (named ''SCALAR'' ''string'') []] []"
  have t: "foo \<in> set (Types (Schema serviceB))"
    by (simp add: serviceB_def foo_def mkSchema_def)
  have k: "typ_Kind foo = ''OBJECT''" by (simp add: foo_def mkType_def)
  have f: "mkField ''s2ok'' (named ''SCALAR'' ''string'') [] \<in> set (typ_Fields foo)"
    by (simp add: foo_def mkType_def)
  from services_of_declared_fields [OF r twoServices_byName b t k f]
  have "served (Fields r) (fieldPointer (TypeTable r) ''Foo'' ''s2ok'') ''B''"
    by (simp add: foo_def mkType_def mkField_def)
  moreover from twoServices_pointer r have "fieldPointer (TypeTable r) ''Foo'' ''s2ok'' = Some (''Foo'', ''s2ok'')"
    by simp
  ultimately show ?thesis using r by auto
qed

subsection \<open>Federation keys\<close>

lemma map_of_map_values:
  "map_of (map (\<lambda>(k, v). (k, g k v)) xs) key = map_option (g key) (map_of xs key)"
  by (induction xs) auto

lemma markFederatedKeys_values:
  "markFederatedKeys service inputFields fs
     = map (\<lambda>(k, f). (k, if k \<in> set (map fst inputFields) then setFederatedKey service f else f)) fs"
  unfolding markFederatedKeys_def by (rule map_cong) auto

lemma map_of_markFederatedKeys:
  "map_of (markFederatedKeys service inputFields fs) key
     = map_option (\<lambda>f. if key \<in> set (map fst inputFields) then setFederatedKey service f else f)
         (map_of fs key)"
  unfolding markFederatedKeys_values by (rule map_of_map_values)

lemma objFields_setObjFields:
  "objFields (setObjFields n fs tbl) m
     = (if m = n \<and> (\<exists>on old. map_of tbl n = Some (GObject on old)) then fs else objFields tbl m)"
proof (cases "map_of tbl n")
  case None
  then show ?thesis by (simp add: setObjFields_def)
next
  case (Some sh)
  then show ?thesis
    by (cases sh) (simp_all add: setObjFields_def objFields_def update_conv')
qed

lemma keyed_setFederatedKey:
  "(case FederatedKey (setFederatedKey service f) of None \<Rightarrow> False | Some m \<Rightarrow> m s = Some True)
     \<longleftrightarrow> s = service \<or> (case FederatedKey f of None \<Rightarrow> False | Some m \<Rightarrow> m s = Some True)"
  by (auto simp: setFederatedKey_def split: option.splits)

text \<open>What marking the keys of one argument does to the annotations of the table.\<close>

lemma keyed_mark:
  assumes "map_of tbl n = Some (GObject on old)"
  shows "keyed (setObjFields n (markFederatedKeys service inputFields (objFields tbl n)) tbl) obj key s
     \<longleftrightarrow> keyed tbl obj key s
         \<or> (obj = n \<and> s = service \<and> key \<in> set (map fst inputFields) \<and> map_of (objFields tbl n) key \<noteq> None)"
proof (cases "obj = n")
  case False
  then show ?thesis by (simp add: keyed_def objFields_setObjFields)
next
  case True
  show ?thesis
  proof (cases "map_of (objFields tbl n) key")
    case None
    with True assms show ?thesis
      by (simp add: keyed_def objFields_setObjFields map_of_markFederatedKeys)
  next
    case (Some f)
    with True assms show ?thesis
      by (auto simp: keyed_def objFields_setObjFields map_of_markFederatedKeys keyed_setFederatedKey)
  qed
qed

lemma checkInputFields_fields:
  "checkInputFields names byName tbl objName rootName ks = Inr u
     \<Longrightarrow> \<forall>k \<in> set ks. map_of (objFields tbl objName) k \<noteq> None"
  by (induction ks) (auto split: sum.splits if_splits)

lemma annotateArg_keyed:
  assumes run: "annotateArg names byName service fieldName objName arg tbl = Inr tbl'"
    and obj: "map_of tbl objName = Some (GObject on old)"
  shows "\<exists>rootType n inputFields.
           getRootType (inp_Type arg) = Inr rootType
         \<and> map_of tbl (ref_Name rootType) = Some (GInputObject n inputFields)
         \<and> (\<forall>obj key s. keyed tbl' obj key s \<longleftrightarrow>
               keyed tbl obj key s \<or> (obj = objName \<and> s = service \<and> key \<in> set (map fst inputFields)))"
proof -
  from run obtain rootType n inputFields where
    root: "getRootType (inp_Type arg) = Inr rootType"
    and inp: "map_of tbl (ref_Name rootType) = Some (GInputObject n inputFields)"
    and chk: "checkInputFields names byName tbl objName (ref_Name rootType) (map fst inputFields) = Inr ()"
    and tbl': "tbl' = setObjFields objName (markFederatedKeys service inputFields (objFields tbl objName)) tbl"
    by (auto simp: annotateArg_def split: sum.splits option.splits gshell.splits)
  from checkInputFields_fields[OF chk]
  have present: "\<forall>k \<in> set (map fst inputFields). map_of (objFields tbl objName) k \<noteq> None" .
  have "keyed tbl' obj key s \<longleftrightarrow>
          keyed tbl obj key s \<or> (obj = objName \<and> s = service \<and> key \<in> set (map fst inputFields))"
    for obj key s
    unfolding tbl' keyed_mark[OF obj] using present by blast
  with root inp show ?thesis by blast
qed

lemma annotateArg_object:
  assumes "annotateArg names byName service fieldName objName arg tbl = Inr tbl'"
  shows "(\<exists>on fs. map_of tbl' n = Some (GObject on fs)) \<longleftrightarrow> (\<exists>on fs. map_of tbl n = Some (GObject on fs))"
  using annotateArg_erase[OF assms] by (rule erase_object)

lemma annotateArgs_keyed_mono:
  assumes run: "forEach (annotateArg names byName service fieldName objName) args tbl = Inr tbl'"
    and obj: "\<exists>on fs. map_of tbl objName = Some (GObject on fs)"
    and k: "keyed tbl obj key s"
  shows "keyed tbl' obj key s"
proof -
  have "(\<exists>on fs. map_of tbl' objName = Some (GObject on fs)) \<and> keyed tbl' obj key s"
  proof (rule forEach_invariant[where I = "\<lambda>t. (\<exists>on fs. map_of t objName = Some (GObject on fs)) \<and> keyed t obj key s", OF run])
    from obj k show "(\<exists>on fs. map_of tbl objName = Some (GObject on fs)) \<and> keyed tbl obj key s" by simp
  next
    fix x t t'
    assume i: "(\<exists>on fs. map_of t objName = Some (GObject on fs)) \<and> keyed t obj key s"
      and b: "annotateArg names byName service fieldName objName x t = Inr t'"
    from i obtain on fs where o: "map_of t objName = Some (GObject on fs)" by blast
    from annotateArg_keyed[OF b o] i have "keyed t' obj key s" by blast
    moreover from annotateArg_object[OF b, of objName] i
    have "\<exists>on fs. map_of t' objName = Some (GObject on fs)" by simp
    ultimately show "(\<exists>on fs. map_of t' objName = Some (GObject on fs)) \<and> keyed t' obj key s" by simp
  qed
  then show ?thesis by simp
qed

lemma annotateEntry_keyed_mono:
  assumes run: "annotateEntry names byName service field tbl = Inr tbl'" and k: "keyed tbl obj key s"
  shows "keyed tbl' obj key s"
proof -
  from run obtain objName on fs where
    "forEach (annotateArg names byName service (fld_Name field) objName) (fld_Args field) tbl = Inr tbl'"
    and "map_of tbl objName = Some (GObject on fs)"
    by (auto simp: annotateEntry_def split: list.splits option.splits gshell.splits)
  with annotateArgs_keyed_mono k show ?thesis by blast
qed

lemma annotateEntries_keyed_mono:
  assumes run: "forEach (annotateEntry names byName service) fs tbl = Inr tbl'" and k: "keyed tbl obj key s"
  shows "keyed tbl' obj key s"
  using run
proof (rule forEach_invariant[where I = "\<lambda>t. keyed t obj key s"])
  show "keyed tbl obj key s" by fact
next
  fix x t t'
  assume "keyed t obj key s" and "annotateEntry names byName service x t = Inr t'"
  then show "keyed t' obj key s" using annotateEntry_keyed_mono by blast
qed

lemma annotateType_table:
  assumes "annotateType names byName service ty st = Inr st'"
  shows "(if typ_Name ty = ''Federation''
          then forEach (annotateEntry names byName service) (typ_Fields ty) (fst st)
          else Inr (fst st)) = Inr (fst st')"
  using assms
  by (auto simp: annotateType_def split: sum.splits if_splits option.splits gshell.splits)

lemma annotateType_keyed_mono:
  assumes run: "annotateType names byName service ty st = Inr st'" and k: "keyed (fst st) obj key s"
  shows "keyed (fst st') obj key s"
  using annotateType_table[OF run] k
  by (auto split: if_splits dest: annotateEntries_keyed_mono)

lemma annotateTypes_keyed_mono:
  assumes run: "forEach (annotateType names byName service) ts st = Inr st'" and k: "keyed (fst st) obj key s"
  shows "keyed (fst st') obj key s"
  using run
proof (rule forEach_invariant[where I = "\<lambda>t. keyed (fst t) obj key s"])
  show "keyed (fst st) obj key s" by fact
next
  fix x t t'
  assume "keyed (fst t) obj key s" and "annotateType names byName service x t = Inr t'"
  then show "keyed (fst t') obj key s" using annotateType_keyed_mono by blast
qed

lemma annotateService_keyed_mono:
  assumes run: "annotateService names byName service st = Inr st'" and k: "keyed (fst st) obj key s"
  shows "keyed (fst st') obj key s"
  using assms by (auto simp: annotateService_def split: option.splits dest: annotateTypes_keyed_mono)

text \<open>One entry point marks the keys of each of its arguments.\<close>

lemma annotateEntry_sets:
  assumes run: "annotateEntry names byName service field tbl = Inr tbl'"
    and split: "SplitN2 (fld_Name field) = [prefix, objName]"
    and arg: "arg \<in> set (fld_Args field)"
    and root: "getRootType (inp_Type arg) = Inr rootType"
    and inp: "map_of tbl (ref_Name rootType) = Some (GInputObject n inputFields)"
    and key: "key \<in> set (map fst inputFields)"
  shows "keyed tbl' objName key service"
proof -
  from run split obtain on fs where
    loop: "forEach (annotateArg names byName service (fld_Name field) objName) (fld_Args field) tbl = Inr tbl'"
    and obj: "map_of tbl objName = Some (GObject on fs)"
    by (auto simp: annotateEntry_def split: list.splits option.splits gshell.splits)
  let ?I = "\<lambda>t. erase t = erase tbl"
  show ?thesis
  proof (rule forEach_establish[where I = ?I and Q = "\<lambda>t. keyed t objName key service", OF loop arg])
    show "erase tbl = erase tbl" ..
  next
    fix y t t'
    assume "erase t = erase tbl" and "annotateArg names byName service (fld_Name field) objName y t = Inr t'"
    with annotateArg_erase show "erase t' = erase tbl" by metis
  next
    fix t t'
    assume i: "erase t = erase tbl"
      and b: "annotateArg names byName service (fld_Name field) objName arg t = Inr t'"
    from erase_object[OF i, of objName] obj obtain on' fs' where o: "map_of t objName = Some (GObject on' fs')"
      by blast
    from erase_input_object[OF i] inp have "map_of t (ref_Name rootType) = Some (GInputObject n inputFields)"
      by simp
    with annotateArg_keyed[OF b o] root key show "keyed t' objName key service" by auto
  next
    fix y t t'
    assume i: "erase t = erase tbl" and q: "keyed t objName key service"
      and b: "annotateArg names byName service (fld_Name field) objName y t = Inr t'"
    from erase_object[OF i, of objName] obj obtain on' fs' where o: "map_of t objName = Some (GObject on' fs')"
      by blast
    from annotateArg_keyed[OF b o] q show "keyed t' objName key service" by blast
  qed
qed

lemma annotateEntries_sets:
  assumes run: "forEach (annotateEntry names byName service) fs tbl = Inr tbl'"
    and field: "field \<in> set fs"
    and split: "SplitN2 (fld_Name field) = [prefix, objName]"
    and arg: "arg \<in> set (fld_Args field)"
    and root: "getRootType (inp_Type arg) = Inr rootType"
    and inp: "map_of tbl (ref_Name rootType) = Some (GInputObject n inputFields)"
    and key: "key \<in> set (map fst inputFields)"
  shows "keyed tbl' objName key service"
proof (rule forEach_establish[where I = "\<lambda>t. erase t = erase tbl" and Q = "\<lambda>t. keyed t objName key service", OF run field])
  show "erase tbl = erase tbl" ..
next
  fix y t t'
  assume "erase t = erase tbl" and "annotateEntry names byName service y t = Inr t'"
  with annotateEntry_erase show "erase t' = erase tbl" by metis
next
  fix t t'
  assume i: "erase t = erase tbl" and b: "annotateEntry names byName service field t = Inr t'"
  from erase_input_object[OF i] inp have "map_of t (ref_Name rootType) = Some (GInputObject n inputFields)"
    by simp
  from annotateEntry_sets[OF b split arg root this key] show "keyed t' objName key service" .
next
  fix y t t'
  assume "keyed t objName key service" and "annotateEntry names byName service y t = Inr t'"
  then show "keyed t' objName key service" using annotateEntry_keyed_mono by blast
qed

lemma annotateTypes_sets:
  assumes run: "forEach (annotateType names byName service) ts st = Inr st'"
    and ty: "ty \<in> set ts" and fed: "typ_Name ty = ''Federation''"
    and field: "field \<in> set (typ_Fields ty)"
    and split: "SplitN2 (fld_Name field) = [prefix, objName]"
    and arg: "arg \<in> set (fld_Args field)"
    and root: "getRootType (inp_Type arg) = Inr rootType"
    and inp: "map_of (fst st) (ref_Name rootType) = Some (GInputObject n inputFields)"
    and key: "key \<in> set (map fst inputFields)"
  shows "keyed (fst st') objName key service"
proof (rule forEach_establish[where I = "\<lambda>t. erase (fst t) = erase (fst st)"
      and Q = "\<lambda>t. keyed (fst t) objName key service", OF run ty])
  show "erase (fst st) = erase (fst st)" ..
next
  fix y t t'
  assume "erase (fst t) = erase (fst st)" and "annotateType names byName service y t = Inr t'"
  with annotateType_erase show "erase (fst t') = erase (fst st)" by metis
next
  fix t t'
  assume i: "erase (fst t) = erase (fst st)" and b: "annotateType names byName service ty t = Inr t'"
  from erase_input_object[OF i] inp have l: "map_of (fst t) (ref_Name rootType) = Some (GInputObject n inputFields)"
    by simp
  from annotateType_table[OF b] fed
  have "forEach (annotateEntry names byName service) (typ_Fields ty) (fst t) = Inr (fst t')" by simp
  from annotateEntries_sets[OF this field split arg root l key] show "keyed (fst t') objName key service" .
next
  fix y t t'
  assume "keyed (fst t) objName key service" and "annotateType names byName service y t = Inr t'"
  then show "keyed (fst t') objName key service" using annotateType_keyed_mono by blast
qed

lemma annotateServices_sets:
  assumes run: "forEach (annotateService names byName) svcs st = Inr st'"
    and svc: "service \<in> set svcs" and schema: "map_of byName service = Some schema"
    and ty: "ty \<in> set (Types (Schema schema))" and fed: "typ_Name ty = ''Federation''"
    and field: "field \<in> set (typ_Fields ty)"
    and split: "SplitN2 (fld_Name field) = [prefix, objName]"
    and arg: "arg \<in> set (fld_Args field)"
    and root: "getRootType (inp_Type arg) = Inr rootType"
    and inp: "map_of (fst st) (ref_Name rootType) = Some (GInputObject n inputFields)"
    and key: "key \<in> set (map fst inputFields)"
  shows "keyed (fst st') objName key service"
proof (rule forEach_establish[where I = "\<lambda>t. erase (fst t) = erase (fst st)"
      and Q = "\<lambda>t. keyed (fst t) objName key service", OF run svc])
  show "erase (fst st) = erase (fst st)" ..
next
  fix y t t'
  assume "erase (fst t) = erase (fst st)" and "annotateService names byName y t = Inr t'"
  with annotateService_erase show "erase (fst t') = erase (fst st)" by metis
next
  fix t t'
  assume i: "erase (fst t) = erase (fst st)" and b: "annotateService names byName service t = Inr t'"
  from erase_input_object[OF i] inp have l: "map_of (fst t) (ref_Name rootType) = Some (GInputObject n inputFields)"
    by simp
  from b schema have "forEach (annotateType names byName service) (Types (Schema schema)) t = Inr t'"
    by (simp add: annotateService_def)
  from annotateTypes_sets[OF this ty fed field split arg root l key]
  show "keyed (fst t') objName key service" .
next
  fix y t t'
  assume "keyed (fst t) objName key service" and "annotateService names byName y t = Inr t'"
  then show "keyed (fst t') objName key service" using annotateService_keyed_mono by blast
qed

text \<open>
  Claim C5. When \<open>ConvertVersionedSchemas\<close> succeeds, for every field \<open>prefix_objName\<close> of a
  type named \<open>Federation\<close> in the intersected schema of a service \<open>S\<close>, every argument of
  it and every input field \<open>key\<close> of the input object the argument names in the merged
  table, \<open>key\<close> is a field of the merged object \<open>objName\<close> and its \<open>FederatedKey[S]\<close> is true.
\<close>

theorem federated_keys_of_entry_points:
  assumes "ConvertVersionedSchemas mss schemas = Inr r"
    and "intersectVersions mss schemas (sortedKeys schemas) = Inr byName"
    and "(service, schema) \<in> set byName"
    and "ty \<in> set (Types (Schema schema))"
    and "typ_Name ty = ''Federation''"
    and "field \<in> set (typ_Fields ty)"
    and "SplitN2 (fld_Name field) = [prefix, objName]"
    and "arg \<in> set (fld_Args field)"
    and "getRootType (inp_Type arg) = Inr rootType"
    and "map_of (TypeTable r) (ref_Name rootType) = Some (GInputObject n inputFields)"
    and "key \<in> set (map fst inputFields)"
  shows "keyed (TypeTable r) objName key service"
proof -
  from assms(1) obtain byName' types types' infos where
    iv: "intersectVersions mss schemas (sortedKeys schemas) = Inr byName'"
    and run: "forEach (annotateService (sortedKeys schemas) byName') (sortedKeys schemas) (types, Map.empty) = Inr (types', infos)"
    and r: "Fields r = infos" "TypeTable r = types'"
    by (rule ConvertVersionedSchemas_stages)
  from iv assms(2) have same: "byName' = byName" by simp
  from byName_lookup[OF assms(2,3)]
  have l: "map_of byName service = Some schema" and s: "service \<in> set (sortedKeys schemas)" .
  from annotateServices_erase[OF run] have "erase types' = erase types" by simp
  from erase_input_object[OF this] assms(10) r
  have "map_of (fst (types, Map.empty :: fieldInfos)) (ref_Name rootType) = Some (GInputObject n inputFields)"
    by simp
  from annotateServices_sets[OF run[unfolded same] s l assms(4,5,6,7,8,9) this assms(11)] r
  show ?thesis by simp
qed

lemma twoServices_input_object:
  "(case ConvertVersionedSchemas mergeSchemaSlice twoServices of
      Inl e \<Rightarrow> False
    | Inr r \<Rightarrow>
        (case map_of (TypeTable r) ''FooKeys'' of
           Some (GInputObject n inputFields) \<Rightarrow> n = ''FooKeys'' \<and> inputFields = [(''name'', GRef ''string'')]
         | _ \<Rightarrow> False))"
  by code_simp

theorem federated_keys_of_entry_points_witness:
  "\<exists>r. ConvertVersionedSchemas mergeSchemaSlice twoServices = Inr r
     \<and> keyed (TypeTable r) ''Foo'' ''name'' ''B''"
proof -
  from twoServices_succeeds obtain r where r: "ConvertVersionedSchemas mergeSchemaSlice twoServices = Inr r"
    by (cases "ConvertVersionedSchemas mergeSchemaSlice twoServices") simp_all
  have b: "(''B'', serviceB) \<in> set [(''A'', serviceA), (''B'', serviceB)]" by simp
  define entry where "entry = mkField ''B_Foo'' (named ''OBJECT'' ''Foo'') [mkInput ''keys'' (named ''INPUT_OBJECT'' ''FooKeys'')]"
  define fed where "fed = mkType ''Federation'' ''OBJECT'' [entry] []"
  have t: "fed \<in> set (Types (Schema serviceB))"
    by (simp add: serviceB_def fed_def entry_def mkSchema_def)
  have n: "typ_Name fed = ''Federation''" by (simp add: fed_def mkType_def)
  have f: "entry \<in> set (typ_Fields fed)" by (simp add: fed_def mkType_def)
  have s: "SplitN2 (fld_Name entry) = [''B'', ''Foo'']"
    by (simp add: entry_def mkField_def SplitN2_def)
  have a: "mkInput ''keys'' (named ''INPUT_OBJECT'' ''FooKeys'') \<in> set (fld_Args entry)"
    by (simp add: entry_def mkField_def)
  have g: "getRootType (inp_Type (mkInput ''keys'' (named ''INPUT_OBJECT'' ''FooKeys'')))
      = Inr (TypeRef ''INPUT_OBJECT'' ''FooKeys'' None)"
    by (simp add: mkInput_def named_def)
  from twoServices_input_object r
  have i: "map_of (TypeTable r) (ref_Name (TypeRef ''INPUT_OBJECT'' ''FooKeys'' None))
      = Some (GInputObject ''FooKeys'' [(''name'', GRef ''string'')])"
    by (auto split: option.splits gshell.splits)
  have k: "''name'' \<in> set (map fst [(''name'', GRef ''string'')])" by simp
  from federated_keys_of_entry_points [OF r twoServices_byName b t n f s a g i k] r
  show ?thesis by blast
qed

subsection \<open>Where a federation key comes from\<close>

lemma map_values_update:
  "map (\<lambda>(k, v). (k, h v)) (AList.update k0 v0 al) = AList.update k0 (h v0) (map (\<lambda>(k, v). (k, h v)) al)"
  by (induction al) auto

lemma erase_update: "erase (AList.update k v tbl) = AList.update k (eraseShell v) (erase tbl)"
  unfolding erase_def by (rule map_values_update)

lemma parseShells_step:
  "parseShells (ty # rest) tbl = Inr tbl' \<Longrightarrow>
     \<exists>v. eraseShell v = v \<and> parseShells rest (AList.update (typ_Name ty) v tbl) = Inr tbl'"
proof -
  assume run: "parseShells (ty # rest) tbl = Inr tbl'"
  then have fresh: "map_of tbl (typ_Name ty) = None" by (simp split: if_splits)
  from run have "namedKind (typ_Kind ty)"
    using parseShells_fresh[OF run] by simp
  then consider (obj) "typ_Kind ty = ''OBJECT''" | (inp) "typ_Kind ty = ''INPUT_OBJECT''"
    | (uni) "typ_Kind ty = ''UNION''" | (enum) "typ_Kind ty = ''ENUM''" | (sca) "typ_Kind ty = ''SCALAR''"
    unfolding namedKind_def by blast
  then show ?thesis
  proof cases
    case obj
    with run fresh have "parseShells rest (AList.update (typ_Name ty) (GObject (typ_Name ty) []) tbl) = Inr tbl'"
      by simp
    moreover have "eraseShell (GObject (typ_Name ty) []) = GObject (typ_Name ty) []" by simp
    ultimately show ?thesis by blast
  next
    case inp
    with run fresh have "parseShells rest (AList.update (typ_Name ty) (GInputObject (typ_Name ty) []) tbl) = Inr tbl'"
      by simp
    moreover have "eraseShell (GInputObject (typ_Name ty) []) = GInputObject (typ_Name ty) []" by simp
    ultimately show ?thesis by blast
  next
    case uni
    with run fresh have "parseShells rest (AList.update (typ_Name ty) (GUnion (typ_Name ty) []) tbl) = Inr tbl'"
      by simp
    moreover have "eraseShell (GUnion (typ_Name ty) []) = GUnion (typ_Name ty) []" by simp
    ultimately show ?thesis by blast
  next
    case enum
    with run fresh have "parseShells rest (AList.update (typ_Name ty) (GEnum (typ_Name ty) [] []) tbl) = Inr tbl'"
      by simp
    moreover have "eraseShell (GEnum (typ_Name ty) [] []) = GEnum (typ_Name ty) [] []" by simp
    ultimately show ?thesis by blast
  next
    case sca
    with run fresh have "parseShells rest (AList.update (typ_Name ty) (GScalar (typ_Name ty)) tbl) = Inr tbl'"
      by simp
    moreover have "eraseShell (GScalar (typ_Name ty)) = GScalar (typ_Name ty)" by simp
    ultimately show ?thesis by blast
  qed
qed

lemma parseShells_erased:
  "parseShells ts tbl = Inr tbl' \<Longrightarrow> erase tbl = tbl \<Longrightarrow> erase tbl' = tbl'"
proof (induction ts arbitrary: tbl)
  case Nil
  then show ?case by simp
next
  case (Cons ty rest)
  from parseShells_step[OF Cons.prems(1)] obtain v where v: "eraseShell v = v"
    and rec: "parseShells rest (AList.update (typ_Name ty) v tbl) = Inr tbl'"
    by blast
  from v Cons.prems(2) have "erase (AList.update (typ_Name ty) v tbl) = AList.update (typ_Name ty) v tbl"
    by (simp add: erase_update)
  from Cons.IH[OF rec this] show ?case .
qed

lemma annotateEntry_success:
  assumes "annotateEntry names byName service field tbl = Inr tbl'"
  shows "\<exists>prefix objName on fs. SplitN2 (fld_Name field) = [prefix, objName]
           \<and> map_of tbl objName = Some (GObject on fs)
           \<and> forEach (annotateArg names byName service (fld_Name field) objName) (fld_Args field) tbl = Inr tbl'"
proof (cases "SplitN2 (fld_Name field)")
  case Nil
  with assms show ?thesis by (simp add: annotateEntry_def)
next
  case c1: (Cons a as)
  show ?thesis
  proof (cases as)
    case Nil
    with c1 assms show ?thesis by (simp add: annotateEntry_def)
  next
    case c2: (Cons b bs)
    show ?thesis
    proof (cases bs)
      case Nil
      with c1 c2 have sp: "SplitN2 (fld_Name field) = [a, b]" by simp
      show ?thesis
      proof (cases "map_of tbl b")
        case None
        with sp assms show ?thesis by (simp add: annotateEntry_def)
      next
        case (Some sh)
        with sp assms show ?thesis by (cases sh) (simp_all add: annotateEntry_def)
      qed
    next
      case (Cons c cs)
      with c1 c2 assms show ?thesis by (simp add: annotateEntry_def)
    qed
  qed
qed

lemma parseObjectFields_erased:
  "parseObjectFields tn fs tbl acc = Inr r \<Longrightarrow> map (\<lambda>(k, f). (k, eraseField f)) acc = acc
     \<Longrightarrow> map (\<lambda>(k, f). (k, eraseField f)) r = r"
proof (induction fs arbitrary: acc)
  case Nil
  then show ?case by simp
next
  case (Cons f rest)
  from Cons.prems(1) obtain parsed fieldTyp where
    rec: "parseObjectFields tn rest tbl
            (AList.update (fld_Name f) \<lparr>Args = parsed, Type = fieldTyp, FederatedKey = None\<rparr> acc) = Inr r"
    by (auto split: sum.splits)
  have "eraseField \<lparr>Args = parsed, Type = fieldTyp, FederatedKey = None\<rparr>
      = \<lparr>Args = parsed, Type = fieldTyp, FederatedKey = None\<rparr>"
    by (simp add: eraseField_def)
  with Cons.prems(2)
  have "map (\<lambda>(k, f). (k, eraseField f))
          (AList.update (fld_Name f) \<lparr>Args = parsed, Type = fieldTyp, FederatedKey = None\<rparr> acc)
        = AList.update (fld_Name f) \<lparr>Args = parsed, Type = fieldTyp, FederatedKey = None\<rparr> acc"
    by (simp add: map_values_update)
  from Cons.IH[OF rec this] show ?case .
qed

lemma parsePopulate_kind:
  "parsePopulate (ty # rest) tbl = Inr tbl' \<Longrightarrow> namedKind (typ_Kind ty)"
  unfolding namedKind_def by (rule ccontr) simp

lemma parsePopulate_step:
  assumes run: "parsePopulate (ty # rest) tbl = Inr tbl'"
  shows "parsePopulate rest tbl = Inr tbl'
     \<or> (\<exists>n fs. parseObjectFields (typ_Name ty) (typ_Fields ty) tbl [] = Inr fs
           \<and> parsePopulate rest (AList.update (typ_Name ty) (GObject n fs) tbl) = Inr tbl')
     \<or> (\<exists>v. eraseShell v = v \<and> parsePopulate rest (AList.update (typ_Name ty) v tbl) = Inr tbl')"
proof -
  from parsePopulate_kind[OF run]
  consider (obj) "typ_Kind ty = ''OBJECT''" | (inp) "typ_Kind ty = ''INPUT_OBJECT''"
    | (uni) "typ_Kind ty = ''UNION''" | (enum) "typ_Kind ty = ''ENUM''" | (sca) "typ_Kind ty = ''SCALAR''"
    unfolding namedKind_def by blast
  then show ?thesis
  proof cases
    case obj
    with run obtain fs where fs: "parseObjectFields (typ_Name ty) (typ_Fields ty) tbl [] = Inr fs"
      by (cases "parseObjectFields (typ_Name ty) (typ_Fields ty) tbl []") simp_all
    with obj run obtain sh where sh: "map_of tbl (typ_Name ty) = Some sh"
      by (cases "map_of tbl (typ_Name ty)") simp_all
    with obj run fs obtain n old where "sh = GObject n old" by (cases sh) simp_all
    with obj run fs sh have "parsePopulate rest (AList.update (typ_Name ty) (GObject n fs) tbl) = Inr tbl'"
      by simp
    with fs show ?thesis by blast
  next
    case inp
    with run obtain parsed where p: "parseInputFields (typ_InputFields ty) tbl = Inr parsed"
      by (cases "parseInputFields (typ_InputFields ty) tbl") simp_all
    with inp run obtain sh where sh: "map_of tbl (typ_Name ty) = Some sh"
      by (cases "map_of tbl (typ_Name ty)") simp_all
    with inp run p obtain n old where "sh = GInputObject n old" by (cases sh) simp_all
    with inp run p sh have "parsePopulate rest (AList.update (typ_Name ty) (GInputObject n parsed) tbl) = Inr tbl'"
      by simp
    moreover have "eraseShell (GInputObject n parsed) = GInputObject n parsed" by simp
    ultimately show ?thesis by blast
  next
    case uni
    with run obtain us where p: "parsePossibleTypes (typ_Name ty) (typ_PossibleTypes ty) tbl [] = Inr us"
      by (cases "parsePossibleTypes (typ_Name ty) (typ_PossibleTypes ty) tbl []") simp_all
    with uni run obtain sh where sh: "map_of tbl (typ_Name ty) = Some sh"
      by (cases "map_of tbl (typ_Name ty)") simp_all
    with uni run p obtain n old where "sh = GUnion n old" by (cases sh) simp_all
    with uni run p sh have "parsePopulate rest (AList.update (typ_Name ty) (GUnion n us) tbl) = Inr tbl'"
      by simp
    moreover have "eraseShell (GUnion n us) = GUnion n us" by simp
    ultimately show ?thesis by blast
  next
    case enum
    with run obtain sh where sh: "map_of tbl (typ_Name ty) = Some sh"
      by (cases "map_of tbl (typ_Name ty)") simp_all
    with enum run obtain n vs rm where "sh = GEnum n vs rm" by (cases sh) simp_all
    with enum run sh have "parsePopulate rest (AList.update (typ_Name ty)
        (GEnum n (typ_EnumValues ty) (fold (\<lambda>v m. AList.update v v m) (typ_EnumValues ty) [])) tbl) = Inr tbl'"
      by simp
    moreover have "eraseShell (GEnum n (typ_EnumValues ty) (fold (\<lambda>v m. AList.update v v m) (typ_EnumValues ty) []))
        = GEnum n (typ_EnumValues ty) (fold (\<lambda>v m. AList.update v v m) (typ_EnumValues ty) [])" by simp
    ultimately show ?thesis by blast
  next
    case sca
    with run show ?thesis by simp
  qed
qed

lemma parsePopulate_erased:
  "parsePopulate ts tbl = Inr tbl' \<Longrightarrow> erase tbl = tbl \<Longrightarrow> erase tbl' = tbl'"
proof (induction ts arbitrary: tbl)
  case Nil
  then show ?case by simp
next
  case (Cons ty rest)
  from parsePopulate_step[OF Cons.prems(1)]
  have "\<exists>tbl1. parsePopulate rest tbl1 = Inr tbl' \<and> erase tbl1 = tbl1"
  proof (elim disjE exE conjE)
    assume "parsePopulate rest tbl = Inr tbl'"
    with Cons.prems(2) show ?thesis by blast
  next
    fix n fs
    assume fs: "parseObjectFields (typ_Name ty) (typ_Fields ty) tbl [] = Inr fs"
      and rec: "parsePopulate rest (AList.update (typ_Name ty) (GObject n fs) tbl) = Inr tbl'"
    from parseObjectFields_erased[OF fs] have "eraseShell (GObject n fs) = GObject n fs" by simp
    with Cons.prems(2) have "erase (AList.update (typ_Name ty) (GObject n fs) tbl)
        = AList.update (typ_Name ty) (GObject n fs) tbl"
      by (simp add: erase_update)
    with rec show ?thesis by blast
  next
    fix v
    assume v: "eraseShell v = v"
      and rec: "parsePopulate rest (AList.update (typ_Name ty) v tbl) = Inr tbl'"
    from v Cons.prems(2) have "erase (AList.update (typ_Name ty) v tbl) = AList.update (typ_Name ty) v tbl"
      by (simp add: erase_update)
    with rec show ?thesis by blast
  qed
  then obtain tbl1 where "parsePopulate rest tbl1 = Inr tbl'" "erase tbl1 = tbl1" by blast
  from Cons.IH[OF this] show ?case .
qed

lemma parseSchema_erased: "parseSchema s = Inr tbl \<Longrightarrow> erase tbl = tbl"
proof -
  assume "parseSchema s = Inr tbl"
  then obtain sh where sh: "parseShells (Types (Schema s)) [] = Inr sh"
    and pop: "parsePopulate (Types (Schema s)) sh = Inr tbl"
    by (auto simp: parseSchema_def split: sum.splits)
  have "erase [] = []" by (simp add: erase_def)
  from parsePopulate_erased[OF pop parseShells_erased[OF sh this]] show ?thesis .
qed

lemma erased_not_keyed: "\<not> keyed (erase tbl) obj key s"
  by (auto simp: keyed_def objFields_erase map_of_map_values eraseField_def split: option.splits)

lemma parseSchema_not_keyed: "parseSchema s = Inr tbl \<Longrightarrow> \<not> keyed tbl obj key svc"
  using erased_not_keyed[of tbl obj key svc] parseSchema_erased[of s tbl] by simp

lemma erase_argNamesKey:
  assumes "erase tbl' = erase tbl"
  shows "argNamesKey tbl' arg key = argNamesKey tbl arg key"
proof (cases "getRootType (inp_Type arg)")
  case (Inl e)
  then show ?thesis by (simp add: argNamesKey_def)
next
  case (Inr rootType)
  have "(case map_of t (ref_Name rootType) of
           Some (GInputObject n inputFields) \<Rightarrow> key \<in> set (map fst inputFields) | _ \<Rightarrow> False)
        = (\<exists>n inputFields. map_of t (ref_Name rootType) = Some (GInputObject n inputFields)
              \<and> key \<in> set (map fst inputFields))" for t
    by (auto split: option.splits gshell.splits)
  with Inr erase_input_object[OF assms] show ?thesis
    by (simp add: argNamesKey_def)
qed

lemma erase_entryKey:
  assumes "erase tbl' = erase tbl"
  shows "entryKey byName tbl' service objName key = entryKey byName tbl service objName key"
  unfolding entryKey_def erase_argNamesKey[OF assms] ..

lemma entryKeyI:
  assumes "map_of byName service = Some schema"
    and "ty \<in> set (Types (Schema schema))" and "typ_Name ty = ''Federation''"
    and "field \<in> set (typ_Fields ty)"
    and "SplitN2 (fld_Name field) = [prefix, objName]"
    and "arg \<in> set (fld_Args field)"
    and "argNamesKey tbl arg key"
  shows "entryKey byName tbl service objName key"
proof -
  from assms(5) have "length (SplitN2 (fld_Name field)) = 2 \<and> SplitN2 (fld_Name field) ! 1 = objName"
    by simp
  with assms(6,7) have "\<exists>arg \<in> set (fld_Args field). argNamesKey tbl arg key" by blast
  with assms(4,5) have "\<exists>field \<in> set (typ_Fields ty).
                length (SplitN2 (fld_Name field)) = 2 \<and> SplitN2 (fld_Name field) ! 1 = objName \<and>
                (\<exists>arg \<in> set (fld_Args field). argNamesKey tbl arg key)"
    by (intro bexI[of _ field]) simp_all
  with assms(2,3) have "\<exists>ty \<in> set (Types (Schema schema)). typ_Name ty = ''Federation'' \<and>
             (\<exists>field \<in> set (typ_Fields ty).
                length (SplitN2 (fld_Name field)) = 2 \<and> SplitN2 (fld_Name field) ! 1 = objName \<and>
                (\<exists>arg \<in> set (fld_Args field). argNamesKey tbl arg key))"
    by (intro bexI[of _ ty]) simp_all
  with assms(1) show ?thesis by (simp add: entryKey_def)
qed

lemma annotateArg_origin:
  assumes run: "annotateArg names byName service fieldName objName arg tbl = Inr tbl'"
    and obj: "map_of tbl objName = Some (GObject on old)"
    and k: "keyed tbl' obj key s"
  shows "keyed tbl obj key s \<or> (obj = objName \<and> s = service \<and> argNamesKey tbl arg key)"
proof -
  from annotateArg_keyed[OF run obj] obtain rootType n inputFields where
    "getRootType (inp_Type arg) = Inr rootType"
    "map_of tbl (ref_Name rootType) = Some (GInputObject n inputFields)"
    "\<forall>obj key s. keyed tbl' obj key s \<longleftrightarrow>
               keyed tbl obj key s \<or> (obj = objName \<and> s = service \<and> key \<in> set (map fst inputFields))"
    by blast
  with k show ?thesis by (auto simp: argNamesKey_def)
qed

text \<open>
  The invariant of the annotation loop: every key of the table comes from an entry point of
  the service it names. \<open>tbl0\<close> is the table before the loop.
\<close>

lemma annotateEntry_origin:
  assumes run: "annotateEntry names byName service field tbl = Inr tbl'"
    and schema: "map_of byName service = Some schema"
    and ty: "ty \<in> set (Types (Schema schema))" and fed: "typ_Name ty = ''Federation''"
    and field: "field \<in> set (typ_Fields ty)"
    and e0: "erase tbl = erase tbl0"
    and inv: "\<forall>obj key s. keyed tbl obj key s \<longrightarrow> entryKey byName tbl0 s obj key"
  shows "\<forall>obj key s. keyed tbl' obj key s \<longrightarrow> entryKey byName tbl0 s obj key"
proof -
  from annotateEntry_success[OF run] obtain prefix objName on fs where
    split: "SplitN2 (fld_Name field) = [prefix, objName]"
    and loop: "forEach (annotateArg names byName service (fld_Name field) objName) (fld_Args field) tbl = Inr tbl'"
    and obj: "map_of tbl objName = Some (GObject on fs)"
    by blast
  let ?I = "\<lambda>t. erase t = erase tbl0 \<and> (\<forall>obj key s. keyed t obj key s \<longrightarrow> entryKey byName tbl0 s obj key)"
  have "?I tbl'"
  proof (rule forEach_invariant[where I = ?I, OF loop])
    from e0 inv show "?I tbl" by simp
  next
    fix arg t t'
    assume arg: "arg \<in> set (fld_Args field)" and i: "?I t"
      and b: "annotateArg names byName service (fld_Name field) objName arg t = Inr t'"
    from i e0 have et: "erase t = erase tbl" by simp
    from erase_object[OF et, of objName] obj obtain on' fs' where o: "map_of t objName = Some (GObject on' fs')"
      by blast
    from annotateArg_erase[OF b] i have e': "erase t' = erase tbl0" by simp
    have "entryKey byName tbl0 s ob key" if k: "keyed t' ob key s" for ob key s
    proof -
      from annotateArg_origin[OF b o k]
      show ?thesis
      proof
        assume "keyed t ob key s"
        with i show ?thesis by blast
      next
        assume new: "ob = objName \<and> s = service \<and> argNamesKey t arg key"
        from i have "erase t = erase tbl0" by simp
        from erase_argNamesKey[OF this] new have a: "argNamesKey tbl0 arg key" by simp
        from entryKeyI[OF schema ty fed field split arg a] new show ?thesis by simp
      qed
    qed
    with e' show "?I t'" by blast
  qed
  then show ?thesis by simp
qed

lemma annotateType_origin:
  assumes run: "annotateType names byName service ty st = Inr st'"
    and schema: "map_of byName service = Some schema"
    and ty: "ty \<in> set (Types (Schema schema))"
    and e0: "erase (fst st) = erase tbl0"
    and inv: "\<forall>obj key s. keyed (fst st) obj key s \<longrightarrow> entryKey byName tbl0 s obj key"
  shows "\<forall>obj key s. keyed (fst st') obj key s \<longrightarrow> entryKey byName tbl0 s obj key"
proof (cases "typ_Name ty = ''Federation''")
  case False
  with annotateType_table[OF run] inv show ?thesis by simp
next
  case True
  with annotateType_table[OF run]
  have loop: "forEach (annotateEntry names byName service) (typ_Fields ty) (fst st) = Inr (fst st')" by simp
  let ?I = "\<lambda>t. erase t = erase tbl0 \<and> (\<forall>obj key s. keyed t obj key s \<longrightarrow> entryKey byName tbl0 s obj key)"
  have "?I (fst st')"
  proof (rule forEach_invariant[where I = ?I, OF loop])
    from e0 inv show "?I (fst st)" by simp
  next
    fix field t t'
    assume f: "field \<in> set (typ_Fields ty)" and i: "?I t"
      and b: "annotateEntry names byName service field t = Inr t'"
    from i have et: "erase t = erase tbl0" and it: "\<forall>obj key s. keyed t obj key s \<longrightarrow> entryKey byName tbl0 s obj key"
      by simp_all
    from annotateEntry_origin[OF b schema ty True f et it] annotateEntry_erase[OF b] et
    show "?I t'" by simp
  qed
  then show ?thesis by simp
qed

lemma annotateService_origin:
  assumes run: "annotateService names byName service st = Inr st'"
    and e0: "erase (fst st) = erase tbl0"
    and inv: "\<forall>obj key s. keyed (fst st) obj key s \<longrightarrow> entryKey byName tbl0 s obj key"
  shows "\<forall>obj key s. keyed (fst st') obj key s \<longrightarrow> entryKey byName tbl0 s obj key"
proof -
  from run obtain schema where schema: "map_of byName service = Some schema"
    and loop: "forEach (annotateType names byName service) (Types (Schema schema)) st = Inr st'"
    by (auto simp: annotateService_def split: option.splits)
  let ?I = "\<lambda>t. erase (fst t) = erase tbl0 \<and> (\<forall>obj key s. keyed (fst t) obj key s \<longrightarrow> entryKey byName tbl0 s obj key)"
  have "?I st'"
  proof (rule forEach_invariant[where I = ?I, OF loop])
    from e0 inv show "?I st" by simp
  next
    fix ty t t'
    assume ty: "ty \<in> set (Types (Schema schema))" and i: "?I t"
      and b: "annotateType names byName service ty t = Inr t'"
    from i have et: "erase (fst t) = erase tbl0"
      and it: "\<forall>obj key s. keyed (fst t) obj key s \<longrightarrow> entryKey byName tbl0 s obj key"
      by simp_all
    from annotateType_origin[OF b schema ty et it] annotateType_erase[OF b] et
    show "?I t'" by simp
  qed
  then show ?thesis by simp
qed

lemma annotateServices_origin:
  assumes run: "forEach (annotateService names byName) svcs st = Inr st'"
    and inv: "\<forall>obj key s. keyed (fst st) obj key s \<longrightarrow> entryKey byName (fst st) s obj key"
  shows "\<forall>obj key s. keyed (fst st') obj key s \<longrightarrow> entryKey byName (fst st) s obj key"
proof -
  let ?I = "\<lambda>t. erase (fst t) = erase (fst st) \<and> (\<forall>obj key s. keyed (fst t) obj key s \<longrightarrow> entryKey byName (fst st) s obj key)"
  have "?I st'"
  proof (rule forEach_invariant[where I = ?I, OF run])
    from inv show "?I st" by simp
  next
    fix svc t t'
    assume i: "?I t" and b: "annotateService names byName svc t = Inr t'"
    from i have et: "erase (fst t) = erase (fst st)"
      and it: "\<forall>obj key s. keyed (fst t) obj key s \<longrightarrow> entryKey byName (fst st) s obj key"
      by simp_all
    from annotateService_origin[OF b et it] annotateService_erase[OF b] et
    show "?I t'" by simp
  qed
  then show ?thesis by simp
qed

text \<open>
  Claim C9. When \<open>ConvertVersionedSchemas\<close> succeeds and a field \<open>key\<close> of the merged object
  \<open>objName\<close> has \<open>FederatedKey[S]\<close> true, the intersected schema of the service \<open>S\<close> itself
  has a type named \<open>Federation\<close> with a field whose name has \<open>objName\<close> after its first
  underscore, one of whose arguments names an input object with the input field \<open>key\<close>.
  What stands before the underscore plays no part.
\<close>

theorem federated_key_names_declaring_service:
  assumes "ConvertVersionedSchemas mss schemas = Inr r"
    and "intersectVersions mss schemas (sortedKeys schemas) = Inr byName"
    and "keyed (TypeTable r) objName key service"
  shows "entryKey byName (TypeTable r) service objName key"
proof -
  from assms(1) obtain byName' types types' infos where
    iv: "intersectVersions mss schemas (sortedKeys schemas) = Inr byName'"
    and mp: "mergeAndParse mss schemas = Inr (byName', types)"
    and run: "forEach (annotateService (sortedKeys schemas) byName') (sortedKeys schemas) (types, Map.empty) = Inr (types', infos)"
    and r: "Fields r = infos" "TypeTable r = types'"
    by (rule ConvertVersionedSchemas_stages)
  from iv assms(2) have same: "byName' = byName" by simp
  from mp obtain merged where "parseSchema merged = Inr types"
    by (auto simp: mergeAndParse_def split: sum.splits)
  from parseSchema_not_keyed[OF this]
  have "\<forall>obj key s. keyed (fst (types, Map.empty :: fieldInfos)) obj key s
      \<longrightarrow> entryKey byName (fst (types, Map.empty :: fieldInfos)) s obj key"
    by simp
  from annotateServices_origin[OF run[unfolded same] this] assms(3) r
  have k: "entryKey byName types service objName key" by simp
  from annotateServices_erase[OF run] have "erase types' = erase types" by simp
  from erase_entryKey[OF this] k r show ?thesis by simp
qed

lemma misnamedEntry_byName:
  "intersectVersions mergeSchemaSlice misnamedEntry (sortedKeys misnamedEntry)
     = Inr [(''A'', serviceA), (''B'', serviceBMisnamed)]"
  by (simp add: misnamedEntry_def sortedKeys_def versionsOf_def versionSchemasOf_def)

lemma misnamedEntry_keys:
  "(case ConvertVersionedSchemas mergeSchemaSlice misnamedEntry of
      Inl e \<Rightarrow> False
    | Inr r \<Rightarrow> keyed (TypeTable r) ''Foo'' ''name'' ''B'' \<and> \<not> keyed (TypeTable r) ''Foo'' ''name'' ''A'')"
  by code_simp

theorem federated_key_names_declaring_service_witness:
  "\<exists>r. ConvertVersionedSchemas mergeSchemaSlice misnamedEntry = Inr r
     \<and> keyed (TypeTable r) ''Foo'' ''name'' ''B''
     \<and> \<not> keyed (TypeTable r) ''Foo'' ''name'' ''A''
     \<and> entryKey [(''A'', serviceA), (''B'', serviceBMisnamed)] (TypeTable r) ''B'' ''Foo'' ''name''"
proof -
  from misnamedEntry_keys obtain r where r: "ConvertVersionedSchemas mergeSchemaSlice misnamedEntry = Inr r"
    and b: "keyed (TypeTable r) ''Foo'' ''name'' ''B''"
    and a: "\<not> keyed (TypeTable r) ''Foo'' ''name'' ''A''"
    by (cases "ConvertVersionedSchemas mergeSchemaSlice misnamedEntry") simp_all
  from federated_key_names_declaring_service [OF r misnamedEntry_byName b] r a b
  show ?thesis by blast
qed

section \<open>Properties of the validations\<close>

subsection \<open>Objects federated on some services only\<close>















subsection \<open>Entry points the annotation loop rejects\<close>













lemma SplitN2_underscore:
  "CHR ''_'' \<in> set s \<Longrightarrow> \<exists>prefix objName. SplitN2 s = [prefix, objName] \<and> s = prefix @ ''_'' @ objName
      \<and> CHR ''_'' \<notin> set prefix"
proof -
  assume u: "CHR ''_'' \<in> set s"
  then have "dropWhile (\<lambda>c. c \<noteq> CHR ''_'') s \<noteq> []" by auto
  then obtain c rest where d: "dropWhile (\<lambda>c. c \<noteq> CHR ''_'') s = c # rest"
    by (cases "dropWhile (\<lambda>c. c \<noteq> CHR ''_'') s") auto
  then have c: "c = CHR ''_''"
    using hd_dropWhile[of "\<lambda>c. c \<noteq> CHR ''_''" s] by auto
  have "s = takeWhile (\<lambda>c. c \<noteq> CHR ''_'') s @ dropWhile (\<lambda>c. c \<noteq> CHR ''_'') s" by simp
  with d c have "s = takeWhile (\<lambda>c. c \<noteq> CHR ''_'') s @ ''_'' @ rest" by simp
  moreover have "CHR ''_'' \<notin> set (takeWhile (\<lambda>c. c \<noteq> CHR ''_'') s)"
    by (auto dest: set_takeWhileD)
  moreover from d have "SplitN2 s = [takeWhile (\<lambda>c. c \<noteq> CHR ''_'') s, rest]"
    unfolding SplitN2_def by (simp only: list.case)
  ultimately show ?thesis by blast
qed






subsection \<open>Federation keys a root service does not expose\<close>










subsection \<open>Which services a field records\<close>







subsection \<open>Fields that return a shadow object\<close>

















end
